theory Spec2Isabelle
  imports Main "HOL-Library.Char_ord" "HOL-Library.List_Lexorder"
begin

section \<open>Outcomes\<close>

text \<open>
  A call of the C++ code either returns to its caller, or the process stops. The ways
  it can stop are values of \<open>failure\<close>:
  \<^item> \<open>AssertionFailed\<close>: an \<^verbatim>\<open>assert\<close> of json.cpp is false (the process aborts;
    the program is taken as built with its assertions, without \<^verbatim>\<open>NDEBUG\<close>);
  \<^item> \<open>Undefined\<close>: the code evaluates a \<^verbatim>\<open>char c;\<close> that no extraction has
    assigned, or calls \<^verbatim>\<open>back()\<close> on an empty string (undefined behaviour in C++);
  \<^item> \<open>LengthError\<close>: \<^verbatim>\<open>std::string(n, ' ')\<close> with a negative \<open>n\<close> throws
    \<^verbatim>\<open>std::length_error\<close>, which nothing catches;
  \<^item> \<open>OutOfFuel\<close>: not an outcome of the code; the recursion bound of the model ran
    out (the theorems below show that the bound \<open>length input + 1\<close> is never exhausted).
\<close>

datatype failure = AssertionFailed | Undefined | LengthError | OutOfFuel

section \<open>Types (json.cpp, lines 18 to 38)\<close>

text \<open>
  \<^verbatim>\<open>value\<close> is a variant over object, array, string, number, true, false and null.
  \<^verbatim>\<open>json::string\<close> is \<^verbatim>\<open>std::string\<close>, here \<open>string\<close>. \<^verbatim>\<open>number\<close> is
  \<^verbatim>\<open>double\<close>; its arithmetic plays no role in json.cpp, only its scanner and its
  formatter do, so the number type is the parameter \<open>'n\<close>.
  \<^verbatim>\<open>object\<close> is \<^verbatim>\<open>std::map<string, value>\<close>: the list of its members in iteration
  order, which is increasing key order without repetition (see \<open>map_insert\<close> below).
\<close>

datatype 'n json_value =
    Object "(string \<times> 'n json_value) list"
  | Array "'n json_value list"
  | String string
  | Number 'n
  | JTrue
  | JFalse
  | Null

type_synonym 'n object = "(string \<times> 'n json_value) list"
type_synonym 'n array = "'n json_value list"
type_synonym 'n member = "string \<times> 'n json_value"

text \<open>
  The parts of the C++ standard library that json.cpp calls and that are not fixed by
  the language standard to a single behaviour are parameters of the model:
  \<^item> \<open>num_get\<close>: the scanner behind \<^verbatim>\<open>is >> double\<close>. Given the characters not yet
    extracted (leading whitespace already skipped) it tells how many of them it
    consumes and the double it converts them to, or \<open>None\<close> when the conversion fails;
  \<^item> \<open>num_put\<close>: the formatter behind \<^verbatim>\<open>os << double\<close>;
  \<^item> \<open>num_zero\<close>: the double \<open>0\<close> (what \<^verbatim>\<open>emplace<number>()\<close> holds);
  \<^item> \<open>num_fail\<close>: the double that a failed conversion stores, given the characters it
    ran on (zero where they spell no number, the largest or the lowest finite double
    where they spell a number out of range);
  \<^item> \<open>moves_rejected\<close>: whether \<^verbatim>\<open>map::insert(P&&)\<close> moves from its argument even
    when the key is already present (the standard allows both; libstdc++ before
    version 12 and libc++ do, libstdc++ from version 12 on does not).
\<close>

record 'n stdlib =
  num_get :: "string \<Rightarrow> nat \<times> 'n option"
  num_put :: "'n \<Rightarrow> string"
  num_zero :: 'n
  num_fail :: "string \<Rightarrow> 'n"
  moves_rejected :: bool

text \<open>
  The state a moved-from object is left in: \<^verbatim>\<open>std::move\<close> of a string, a vector or a
  map leaves it empty; a double or an empty struct is copied.
\<close>

fun moved_from :: "'n json_value \<Rightarrow> 'n json_value" where
  "moved_from (Object obj) = Object []"
| "moved_from (Array ar) = Array []"
| "moved_from (String str) = String []"
| "moved_from v = v"

subsection \<open>std::map\<close>

text \<open>
  \<^verbatim>\<open>std::map::insert\<close>: the members are kept in increasing key order
  (\<^verbatim>\<open>std::less<string>\<close>, the lexicographic order of the bytes), and a key that is
  already present keeps its value. The result says whether the member was inserted.
\<close>

fun map_insert :: "string \<times> 'v \<Rightarrow> (string \<times> 'v) list \<Rightarrow> (string \<times> 'v) list \<times> bool" where
  "map_insert m [] = ([m], True)"
| "map_insert m (x # obj) =
     (if fst m < fst x then (m # x # obj, True)
      else if fst x < fst m then (case map_insert m obj of (obj', b) \<Rightarrow> (x # obj', b))
      else (x # obj, False))"

section \<open>Input streams\<close>

text \<open>
  A \<^verbatim>\<open>std::istream\<close>: the characters already extracted (the most recent first, so
  that \<^verbatim>\<open>unget\<close> can give one back), the characters not yet extracted, the state flags
  and the \<^verbatim>\<open>skipws\<close> format flag. The position in the stream is
  \<open>length (consumed s)\<close>.
\<close>

record istream =
  consumed :: string
  pending :: string
  eofbit :: bool
  failbit :: bool
  badbit :: bool
  skipws :: bool

definition open_stream :: "string \<Rightarrow> istream" where
  "open_stream txt =
     \<lparr>consumed = [], pending = txt, eofbit = False, failbit = False, badbit = False,
      skipws = True\<rparr>"

definition good :: "istream \<Rightarrow> bool" where
  "good s = (\<not> eofbit s \<and> \<not> failbit s \<and> \<not> badbit s)"

text \<open>\<^verbatim>\<open>is.fail()\<close>; the conversion of a stream to \<^verbatim>\<open>bool\<close> is its negation.\<close>

definition fail :: "istream \<Rightarrow> bool" where
  "fail s = (failbit s \<or> badbit s)"

definition clear :: "istream \<Rightarrow> istream" where
  "clear s = s\<lparr>eofbit := False, failbit := False, badbit := False\<rparr>"

text \<open>\<^verbatim>\<open>isspace\<close> in the C locale: space, and the characters 9 to 13.\<close>

definition isspace :: "char \<Rightarrow> bool" where
  "isspace c = (c = CHR '' '' \<or> c = CHR 0x09 \<or> c = CHR 0x0A \<or> c = CHR 0x0B \<or> c = CHR 0x0C
     \<or> c = CHR 0x0D)"

text \<open>
  \<^verbatim>\<open>isdigit\<close>, which json.cpp calls on a \<^verbatim>\<open>char\<close>: the ten decimal digits. (A
  character above 127 is a negative \<^verbatim>\<open>int\<close> where \<^verbatim>\<open>char\<close> is signed, outside the
  domain of the C function; the tables of the usual C libraries answer no, as here.)
\<close>

definition isdigit :: "char \<Rightarrow> bool" where
  "isdigit c = (c \<in> set ''0123456789'')"

text \<open>Moving the get position over the first \<open>k\<close> pending characters.\<close>

definition advance :: "nat \<Rightarrow> istream \<Rightarrow> istream" where
  "advance k s =
     s\<lparr>consumed := rev (take k (pending s)) @ consumed s, pending := drop k (pending s)\<rparr>"

text \<open>
  The sentry of a formatted input function: a stream that is not good gets
  \<^verbatim>\<open>failbit\<close> and the extraction does not take place; otherwise, with \<^verbatim>\<open>skipws\<close>
  set, whitespace is skipped, and reaching the end of the input there sets
  \<^verbatim>\<open>eofbit\<close> and \<^verbatim>\<open>failbit\<close>. The argument is \<^verbatim>\<open>noskip\<close>.
\<close>

definition sentry :: "bool \<Rightarrow> istream \<Rightarrow> istream \<times> bool" where
  "sentry noskip s =
     (if good s then
        (if \<not> noskip \<and> skipws s then
           (let s1 = advance (length (takeWhile isspace (pending s))) s
            in if pending s1 = [] then (s1\<lparr>eofbit := True, failbit := True\<rparr>, False)
               else (s1, True))
         else (s, True))
      else (s\<lparr>failbit := True\<rparr>, False))"

text \<open>
  \<^verbatim>\<open>char c; is >> c;\<close>: the character extracted, or \<open>None\<close> when the extraction fails
  and \<open>c\<close> keeps the indeterminate value it was declared with.
\<close>

definition get_char :: "istream \<Rightarrow> istream \<times> char option" where
  "get_char s =
     (case sentry False s of
        (s1, False) \<Rightarrow> (s1, None)
      | (s1, True) \<Rightarrow>
          (case pending s1 of
             [] \<Rightarrow> (s1\<lparr>eofbit := True, failbit := True\<rparr>, None)
           | c # cs \<Rightarrow> (advance 1 s1, Some c)))"

text \<open>
  \<^verbatim>\<open>is.unget()\<close> (C++11 and later): clears \<^verbatim>\<open>eofbit\<close>; on a failed stream sets
  \<^verbatim>\<open>failbit\<close> and does nothing else; at the start of the input sets \<^verbatim>\<open>badbit\<close>;
  otherwise steps back over the last character extracted.
\<close>

definition unget :: "istream \<Rightarrow> istream" where
  "unget s =
     (let s1 = s\<lparr>eofbit := False\<rparr> in
      if fail s1 then s1\<lparr>failbit := True\<rparr>
      else (case consumed s1 of
              [] \<Rightarrow> s1\<lparr>badbit := True\<rparr>
            | c # cs \<Rightarrow> s1\<lparr>consumed := cs, pending := c # pending s1\<rparr>))"

text \<open>
  \<^verbatim>\<open>std::string s; is >> s;\<close>: the characters up to the next whitespace or the end
  of the input. Reaching the end sets \<^verbatim>\<open>eofbit\<close>, extracting nothing sets
  \<^verbatim>\<open>failbit\<close>; a failed sentry leaves \<open>s\<close> empty.
\<close>

definition get_word :: "istream \<Rightarrow> istream \<times> string" where
  "get_word s =
     (case sentry False s of
        (s1, False) \<Rightarrow> (s1, [])
      | (s1, True) \<Rightarrow>
          (let w = takeWhile (\<lambda>c. \<not> isspace c) (pending s1);
               s2 = advance (length w) s1;
               s3 = (if pending s2 = [] then s2\<lparr>eofbit := True\<rparr> else s2)
           in (if w = [] then s3\<lparr>failbit := True\<rparr> else s3, w)))"

text \<open>
  \<^verbatim>\<open>is >> x\<close> for a double \<open>x\<close>: the scanner \<open>num_get\<close> runs on the pending
  characters; it cannot consume more than there are, consuming all of them means it
  met the end of the input (\<^verbatim>\<open>eofbit\<close>), and a failed conversion stores \<open>num_fail\<close>
  and sets \<^verbatim>\<open>failbit\<close>.
\<close>

definition get_double :: "'n stdlib \<Rightarrow> istream \<Rightarrow> 'n \<Rightarrow> istream \<times> 'n" where
  "get_double L s x =
     (case sentry False s of
        (s1, False) \<Rightarrow> (s1, x)
      | (s1, True) \<Rightarrow>
          (case num_get L (pending s1) of
             (k, r) \<Rightarrow>
               (let s2 = advance k s1;
                    s3 = (if pending s2 = [] then s2\<lparr>eofbit := True\<rparr> else s2)
                in case r of
                     None \<Rightarrow> (s3\<lparr>failbit := True\<rparr>, num_fail L (pending s1))
                   | Some y \<Rightarrow> (s3, y))))"

section \<open>Input (json.cpp, lines 40 to 192)\<close>

text \<open>\<^verbatim>\<open>read_one_character\<close>, lines 42 to 47.\<close>

definition read_one_character :: "istream \<Rightarrow> char \<Rightarrow> failure + istream" where
  "read_one_character s ch =
     (case get_char s of
        (s1, None) \<Rightarrow> Inl Undefined
      | (s1, Some c) \<Rightarrow> if c = ch then Inr s1 else Inl AssertionFailed)"

text \<open>\<^verbatim>\<open>escaped_character\<close>, lines 49 to 61.\<close>

definition escaped_character :: "istream \<Rightarrow> failure + (istream \<times> char)" where
  "escaped_character s =
     (case get_char s of
        (s1, None) \<Rightarrow> Inl Undefined
      | (s1, Some c) \<Rightarrow>
          Inr (s1,
            if c = CHR ''b'' then CHR 0x08
            else if c = CHR ''f'' then CHR 0x0C
            else if c = CHR ''n'' then CHR 0x0A
            else if c = CHR ''r'' then CHR 0x0D
            else if c = CHR ''t'' then CHR 0x09
            else c))"

lemma drop_Cons_length: "drop k xs = c # cs \<Longrightarrow> length cs < length xs"
proof -
  assume h: "drop k xs = c # cs"
  have "length (drop k xs) \<le> length xs" by simp
  with h show ?thesis by simp
qed

lemma get_char_pending:
  "get_char s = (s1, Some c) \<Longrightarrow> length (pending s1) < length (pending s)"
  by (auto simp: get_char_def sentry_def advance_def Let_def drop_Suc
      split: if_splits list.splits prod.splits dest: drop_Cons_length)

lemma escaped_character_pending:
  "escaped_character s = Inr (s1, c) \<Longrightarrow> length (pending s1) < length (pending s)"
  by (auto simp: escaped_character_def dest: get_char_pending split: prod.splits option.splits)

text \<open>
  The loop of \<^verbatim>\<open>operator>>(istream&, string&)\<close>, lines 67 to 74: the characters
  are appended to what \<open>str\<close> already holds.
\<close>

function string_loop :: "istream \<Rightarrow> string \<Rightarrow> failure + (istream \<times> string)" where
  "string_loop s str =
     (case get_char s of
        (s1, None) \<Rightarrow> Inr (s1, str)
      | (s1, Some c) \<Rightarrow>
          if c = CHR 0x5C then
            (case escaped_character s1 of
               Inl e \<Rightarrow> Inl e
             | Inr (s2, c') \<Rightarrow> string_loop s2 (str @ [c']))
          else if c = CHR 0x22 then Inr (s1, str)
          else string_loop s1 (str @ [c]))"
  by pat_completeness auto
termination
proof (relation "measure (\<lambda>(s, str). length (pending s))", goal_cases)
  case 1
  show ?case by simp
next
  case (2 s str s1 y c e s2 c')
  then have "length (pending s1) < length (pending s)"
    "length (pending s2) < length (pending s1)"
    using get_char_pending [of s s1 c] escaped_character_pending [of s1 s2 c'] by auto
  then show ?case by simp
next
  case (3 s str s1 y c)
  then have "length (pending s1) < length (pending s)"
    using get_char_pending [of s s1 c] by auto
  then show ?case by simp
qed

declare string_loop.simps [simp del]

text \<open>\<^verbatim>\<open>operator>>(istream&, string&)\<close>, lines 63 to 77.\<close>

definition parse_string :: "istream \<Rightarrow> string \<Rightarrow> failure + (istream \<times> string)" where
  "parse_string s str =
     (case read_one_character s (CHR 0x22) of
        Inl e \<Rightarrow> Inl e
      | Inr s1 \<Rightarrow>
          (case string_loop (s1\<lparr>skipws := False\<rparr>) str of
             Inl e \<Rightarrow> Inl e
           | Inr (s2, str') \<Rightarrow> Inr (s2\<lparr>skipws := True\<rparr>, str')))"

text \<open>
  The three literal parsers, lines 135 to 169, are the same code up to the expected
  spelling: a whitespace-delimited word is read, a last character \<^verbatim>\<open>','\<close> is given
  back to the stream and dropped from the word, and the word is asserted to be the
  spelling.
\<close>

definition parse_literal :: "string \<Rightarrow> istream \<Rightarrow> failure + istream" where
  "parse_literal expected s =
     (case get_word s of
        (s1, w) \<Rightarrow>
          if w = [] then Inl Undefined
          else (case (if last w = CHR '','' then (unget s1, butlast w) else (s1, w)) of
                  (s2, w') \<Rightarrow> if w' = expected then Inr s2 else Inl AssertionFailed))"

text \<open>\<^verbatim>\<open>operator>>(istream&, true_)\<close>, lines 135 to 145.\<close>

definition parse_true :: "istream \<Rightarrow> failure + istream" where
  "parse_true s = parse_literal ''true'' s"

text \<open>\<^verbatim>\<open>operator>>(istream&, false_)\<close>, lines 147 to 157.\<close>

definition parse_false :: "istream \<Rightarrow> failure + istream" where
  "parse_false s = parse_literal ''false'' s"

text \<open>\<^verbatim>\<open>operator>>(istream&, null)\<close>, lines 159 to 169.\<close>

definition parse_null :: "istream \<Rightarrow> failure + istream" where
  "parse_null s = parse_literal ''null'' s"

text \<open>
  \<^verbatim>\<open>operator>>(istream&, value&)\<close> is declared at line 79 and defined at line 171. The
  parsers of members, objects and arrays, which call it, take it as their argument
  \<open>pv\<close>: a function from the stream and the value referred to, to the outcome.
\<close>

type_synonym 'n value_parser =
  "istream \<Rightarrow> 'n json_value \<Rightarrow> failure + (istream \<times> 'n json_value)"

text \<open>\<^verbatim>\<open>operator>>(istream&, member&)\<close>, lines 81 to 95.\<close>

definition parse_member ::
  "'n value_parser \<Rightarrow> istream \<Rightarrow> 'n member \<Rightarrow> failure + (istream \<times> 'n member)" where
  "parse_member pv s mem =
     (case get_char s of
        (s1, None) \<Rightarrow> Inl Undefined
      | (s1, Some c) \<Rightarrow>
          (let s2 = unget s1 in
           if c = CHR 0x22 then
             (case parse_string s2 (fst mem) of
                Inl e \<Rightarrow> Inl e
              | Inr (s3, key) \<Rightarrow>
                  (case read_one_character s3 (CHR '':'') of
                     Inl e \<Rightarrow> Inl e
                   | Inr s4 \<Rightarrow>
                       (case pv s4 (snd mem) of
                          Inl e \<Rightarrow> Inl e
                        | Inr (s5, val) \<Rightarrow> Inr (s5, (key, val)))))
           else Inr (s2\<lparr>failbit := True\<rparr>, mem)))"

text \<open>
  \<^verbatim>\<open>obj.insert(std::move(m))\<close>, line 101: the object after the insertion, and what
  is left in \<open>m\<close>.
\<close>

definition insert_move :: "bool \<Rightarrow> 'n member \<Rightarrow> 'n object \<Rightarrow> 'n object \<times> 'n member" where
  "insert_move moves m obj =
     (case map_insert m obj of
        (obj', inserted) \<Rightarrow>
          (obj', if inserted \<or> moves then ([], moved_from (snd m)) else m))"

text \<open>
  The loop of \<^verbatim>\<open>operator>>(istream&, object&)\<close>, lines 100 to 110. The first
  argument after the parser bounds the number of iterations.
\<close>

fun object_loop ::
  "'n value_parser \<Rightarrow> bool \<Rightarrow> nat \<Rightarrow> istream \<Rightarrow> 'n member \<Rightarrow> 'n object \<Rightarrow>
     failure + (istream \<times> 'n object)" where
  "object_loop pv moves 0 s m obj = Inl OutOfFuel"
| "object_loop pv moves (Suc k) s m obj =
     (case parse_member pv s m of
        Inl e \<Rightarrow> Inl e
      | Inr (s1, m1) \<Rightarrow>
          if fail s1 then Inr (s1, obj)
          else (case insert_move moves m1 obj of
                  (obj1, m2) \<Rightarrow>
                    (case get_char s1 of
                       (s2, None) \<Rightarrow> Inl Undefined
                     | (s2, Some c) \<Rightarrow>
                         if c = CHR '','' then object_loop pv moves k s2 m2 obj1
                         else Inr (unget s2, obj1))))"

text \<open>\<^verbatim>\<open>operator>>(istream&, object&)\<close>, lines 97 to 114.\<close>

definition parse_object ::
  "'n value_parser \<Rightarrow> bool \<Rightarrow> nat \<Rightarrow> istream \<Rightarrow> 'n object \<Rightarrow>
     failure + (istream \<times> 'n object)" where
  "parse_object pv moves k s obj =
     (case read_one_character s (CHR ''{'') of
        Inl e \<Rightarrow> Inl e
      | Inr s1 \<Rightarrow>
          (case object_loop pv moves k s1 ([], Object []) obj of
             Inl e \<Rightarrow> Inl e
           | Inr (s2, obj1) \<Rightarrow>
               (case read_one_character (clear s2) (CHR ''}'') of
                  Inl e \<Rightarrow> Inl e
                | Inr s3 \<Rightarrow> Inr (s3, obj1))))"

text \<open>The loop of \<^verbatim>\<open>operator>>(istream&, array&)\<close>, lines 119 to 129.\<close>

fun array_loop ::
  "'n value_parser \<Rightarrow> nat \<Rightarrow> istream \<Rightarrow> 'n json_value \<Rightarrow> 'n array \<Rightarrow>
     failure + (istream \<times> 'n array)" where
  "array_loop pv 0 s val ar = Inl OutOfFuel"
| "array_loop pv (Suc k) s val ar =
     (case pv s val of
        Inl e \<Rightarrow> Inl e
      | Inr (s1, val1) \<Rightarrow>
          if fail s1 then Inr (s1, ar)
          else (case get_char s1 of
                  (s2, None) \<Rightarrow> Inl Undefined
                | (s2, Some c) \<Rightarrow>
                    if c = CHR '','' then array_loop pv k s2 (moved_from val1) (ar @ [val1])
                    else Inr (unget s2, ar @ [val1])))"

text \<open>\<^verbatim>\<open>operator>>(istream&, array&)\<close>, lines 116 to 133.\<close>

definition parse_array ::
  "'n value_parser \<Rightarrow> nat \<Rightarrow> istream \<Rightarrow> 'n array \<Rightarrow> failure + (istream \<times> 'n array)" where
  "parse_array pv k s ar =
     (case read_one_character s (CHR ''['') of
        Inl e \<Rightarrow> Inl e
      | Inr s1 \<Rightarrow>
          (case array_loop pv k s1 (Object []) ar of
             Inl e \<Rightarrow> Inl e
           | Inr (s2, ar1) \<Rightarrow>
               (case read_one_character (clear s2) (CHR '']'') of
                  Inl e \<Rightarrow> Inl e
                | Inr s3 \<Rightarrow> Inr (s3, ar1))))"

text \<open>
  \<^verbatim>\<open>operator>>(istream&, value&)\<close>, lines 171 to 192. The first argument after the
  library bounds the depth of the recursion and the iterations of each loop.
  (\<^verbatim>\<open>std::scientific\<close> at line 187 sets a flag that only formatting reads; it has
  no effect on the extraction.)
\<close>

primrec parse_value :: "'n stdlib \<Rightarrow> nat \<Rightarrow> 'n value_parser" where
  "parse_value L 0 = (\<lambda>s val. Inl OutOfFuel)"
| "parse_value L (Suc k) = (\<lambda>s val.
     (case get_char s of
        (s1, None) \<Rightarrow> Inl Undefined
      | (s1, Some c) \<Rightarrow>
          (let s2 = unget s1 in
           if c = CHR ''{'' then
             (case parse_object (parse_value L k) (moves_rejected L) k s2 [] of
                Inl e \<Rightarrow> Inl e
              | Inr (s3, obj) \<Rightarrow> Inr (s3, Object obj))
           else if c = CHR ''['' then
             (case parse_array (parse_value L k) k s2 [] of
                Inl e \<Rightarrow> Inl e
              | Inr (s3, ar) \<Rightarrow> Inr (s3, Array ar))
           else if c = CHR 0x22 then
             (case parse_string s2 [] of
                Inl e \<Rightarrow> Inl e
              | Inr (s3, str) \<Rightarrow> Inr (s3, String str))
           else if c = CHR ''t'' then
             (case parse_true s2 of Inl e \<Rightarrow> Inl e | Inr s3 \<Rightarrow> Inr (s3, JTrue))
           else if c = CHR ''f'' then
             (case parse_false s2 of Inl e \<Rightarrow> Inl e | Inr s3 \<Rightarrow> Inr (s3, JFalse))
           else if c = CHR ''n'' then
             (case parse_null s2 of Inl e \<Rightarrow> Inl e | Inr s3 \<Rightarrow> Inr (s3, Null))
           else if isdigit c \<or> c = CHR ''-'' then
             (case get_double L s2 (num_zero L) of (s3, x) \<Rightarrow> Inr (s3, Number x))
           else Inr (s2\<lparr>failbit := True\<rparr>, val))))"

text \<open>
  Reading a value, or an object as \<^verbatim>\<open>main\<close> does (lines 306 to 308), from a
  stream just opened on a text. The bound \<open>length txt + 1\<close> is never exhausted
  (\<open>parse_value_fuel\<close> below).
\<close>

definition read_value :: "'n stdlib \<Rightarrow> string \<Rightarrow> failure + (istream \<times> 'n json_value)" where
  "read_value L txt = parse_value L (Suc (length txt)) (open_stream txt) (Object [])"

definition read_object :: "'n stdlib \<Rightarrow> string \<Rightarrow> failure + (istream \<times> 'n object)" where
  "read_object L txt =
     parse_object (parse_value L (length txt)) (moves_rejected L) (length txt)
       (open_stream txt) []"

section \<open>Output (json.cpp, lines 194 to 300)\<close>

text \<open>
  A \<^verbatim>\<open>std::ostream\<close>: the characters written so far, and the word
  \<^verbatim>\<open>os.iword(indent_index())\<close> (lines 220 to 224), a \<^verbatim>\<open>long\<close> that is zero in a
  new stream. Writing to a destination that fails, and running out of memory, are
  outside the model.
\<close>

record ostream =
  out :: string
  iword :: int

definition new_ostream :: ostream where
  "new_ostream = \<lparr>out = [], iword = 0\<rparr>"

definition put :: "string \<Rightarrow> ostream \<Rightarrow> ostream" where
  "put txt os = os\<lparr>out := out os @ txt\<rparr>"

text \<open>
  \<^verbatim>\<open>find\<close>, lines 196 to 200: the index of the first occurrence of \<open>c\<close>, or the
  length of the array when there is none.
\<close>

definition find_char :: "char list \<Rightarrow> char \<Rightarrow> nat" where
  "find_char characters c = length (takeWhile (\<lambda>x. x \<noteq> c) characters)"

definition escapes :: "char list" where
  "escapes = [CHR 0x22, CHR 0x5C, CHR ''/'', CHR 0x08, CHR 0x0C, CHR 0x0A, CHR 0x0D, CHR 0x09]"

definition esc_chars :: "char list" where
  "esc_chars = [CHR 0x22, CHR 0x5C, CHR ''/'', CHR ''b'', CHR ''f'', CHR ''n'', CHR ''r'', CHR ''t'']"

text \<open>The body of the loop of \<^verbatim>\<open>operator<<(ostream&, const string&)\<close>, lines 210 to 214.\<close>

definition write_char :: "char \<Rightarrow> ostream \<Rightarrow> ostream" where
  "write_char c os =
     (let it = find_char escapes c in
      if it \<noteq> length escapes then put [CHR 0x5C, esc_chars ! it] os
      else put [c] os)"

text \<open>\<^verbatim>\<open>operator<<(ostream&, const string&)\<close>, lines 202 to 218.\<close>

definition write_string :: "ostream \<Rightarrow> string \<Rightarrow> ostream" where
  "write_string os str = put [CHR 0x22] (fold write_char str (put [CHR 0x22] os))"

text \<open>The manipulators \<^verbatim>\<open>indent\<close>, \<^verbatim>\<open>increase_indent\<close>, \<^verbatim>\<open>decrease_indent\<close>, lines 226 to 245.\<close>

definition indent :: "ostream \<Rightarrow> failure + ostream" where
  "indent os =
     (if iword os < 0 then Inl LengthError
      else Inr (put (replicate (nat (iword os)) (CHR '' '')) os))"

definition increase_indent :: "ostream \<Rightarrow> ostream" where
  "increase_indent os = os\<lparr>iword := iword os + 2\<rparr>"

definition decrease_indent :: "ostream \<Rightarrow> ostream" where
  "decrease_indent os = os\<lparr>iword := iword os - 2\<rparr>"

text \<open>
  \<^verbatim>\<open>operator<<(ostream&, const value&)\<close> is declared at line 247 and defined at line
  296; the writers of objects and arrays take it as their argument \<open>wv\<close>.
\<close>

type_synonym 'n value_writer = "ostream \<Rightarrow> 'n json_value \<Rightarrow> failure + ostream"

text \<open>The loop of \<^verbatim>\<open>operator<<(ostream&, const object&)\<close>, lines 252 to 260.\<close>

fun write_members :: "'n value_writer \<Rightarrow> bool \<Rightarrow> ostream \<Rightarrow> 'n object \<Rightarrow> failure + ostream" where
  "write_members wv first os [] = Inr os"
| "write_members wv first os ((key, val) # obj) =
     (case indent (if first then os else put [CHR '','', CHR 0x0A] os) of
        Inl e \<Rightarrow> Inl e
      | Inr os1 \<Rightarrow>
          (case wv (put '': '' (write_string os1 key)) val of
             Inl e \<Rightarrow> Inl e
           | Inr os2 \<Rightarrow> write_members wv False os2 obj))"

text \<open>\<^verbatim>\<open>operator<<(ostream&, const object&)\<close>, lines 249 to 263.\<close>

definition write_object :: "'n value_writer \<Rightarrow> ostream \<Rightarrow> 'n object \<Rightarrow> failure + ostream" where
  "write_object wv os obj =
     (case write_members wv True (increase_indent (put [CHR ''{'', CHR 0x0A] os)) obj of
        Inl e \<Rightarrow> Inl e
      | Inr os1 \<Rightarrow>
          (case indent (decrease_indent (put [CHR 0x0A] os1)) of
             Inl e \<Rightarrow> Inl e
           | Inr os2 \<Rightarrow> Inr (put ''}'' os2)))"

text \<open>The loop of \<^verbatim>\<open>operator<<(ostream&, const array&)\<close>, lines 268 to 276.\<close>

fun write_elements :: "'n value_writer \<Rightarrow> bool \<Rightarrow> ostream \<Rightarrow> 'n array \<Rightarrow> failure + ostream" where
  "write_elements wv first os [] = Inr os"
| "write_elements wv first os (el # ar) =
     (case indent (if first then os else put [CHR '','', CHR 0x0A] os) of
        Inl e \<Rightarrow> Inl e
      | Inr os1 \<Rightarrow>
          (case wv os1 el of
             Inl e \<Rightarrow> Inl e
           | Inr os2 \<Rightarrow> write_elements wv False os2 ar))"

text \<open>\<^verbatim>\<open>operator<<(ostream&, const array&)\<close>, lines 265 to 279.\<close>

definition write_array :: "'n value_writer \<Rightarrow> ostream \<Rightarrow> 'n array \<Rightarrow> failure + ostream" where
  "write_array wv os ar =
     (case write_elements wv True (increase_indent (put [CHR ''['', CHR 0x0A] os)) ar of
        Inl e \<Rightarrow> Inl e
      | Inr os1 \<Rightarrow>
          (case indent (decrease_indent (put [CHR 0x0A] os1)) of
             Inl e \<Rightarrow> Inl e
           | Inr os2 \<Rightarrow> Inr (put '']'' os2)))"

lemma write_members_eq:
  "(\<And>k v os1. (k, v) \<in> set obj \<Longrightarrow> wv os1 v = wv' os1 v) \<Longrightarrow>
     write_members wv first os obj = write_members wv' first os obj"
proof (induction obj arbitrary: first os)
  case Nil
  show ?case by simp
next
  case (Cons m obj)
  obtain k v where m: "m = (k, v)" by (cases m)
  have head: "\<And>os1. wv os1 v = wv' os1 v"
    using Cons.prems [of k v] by (simp add: m)
  have "\<And>k v os1. (k, v) \<in> set obj \<Longrightarrow> wv os1 v = wv' os1 v"
  proof -
    fix k v os1
    assume "(k, v) \<in> set obj"
    then have "(k, v) \<in> set (m # obj)" by simp
    then show "wv os1 v = wv' os1 v" by (rule Cons.prems)
  qed
  then have tail:
    "\<And>first os. write_members wv first os obj = write_members wv' first os obj"
    by (rule Cons.IH)
  show ?case by (simp add: m head tail cong: sum.case_cong)
qed

lemma write_members_cong [fundef_cong]:
  "obj = obj' \<Longrightarrow> first = first' \<Longrightarrow> os = os' \<Longrightarrow>
   (\<And>k v os1. (k, v) \<in> set obj' \<Longrightarrow> wv os1 v = wv' os1 v) \<Longrightarrow>
     write_members wv first os obj = write_members wv' first' os' obj'"
  using write_members_eq [of obj' wv wv' first' os'] by simp

lemma write_object_cong [fundef_cong]:
  "obj = obj' \<Longrightarrow> os = os' \<Longrightarrow>
   (\<And>k v os1. (k, v) \<in> set obj' \<Longrightarrow> wv os1 v = wv' os1 v) \<Longrightarrow>
     write_object wv os obj = write_object wv' os' obj'"
  using write_members_eq [of obj' wv wv'] by (simp add: write_object_def)

lemma write_elements_eq:
  "(\<And>v os1. v \<in> set ar \<Longrightarrow> wv os1 v = wv' os1 v) \<Longrightarrow>
     write_elements wv first os ar = write_elements wv' first os ar"
proof (induction ar arbitrary: first os)
  case Nil
  show ?case by simp
next
  case (Cons v ar)
  have head: "\<And>os1. wv os1 v = wv' os1 v"
    using Cons.prems [of v] by simp
  have tail: "\<And>first os. write_elements wv first os ar = write_elements wv' first os ar"
    by (rule Cons.IH) (rule Cons.prems, simp)
  show ?case by (simp add: head tail cong: sum.case_cong)
qed

lemma write_elements_cong [fundef_cong]:
  "ar = ar' \<Longrightarrow> first = first' \<Longrightarrow> os = os' \<Longrightarrow>
   (\<And>v os1. v \<in> set ar' \<Longrightarrow> wv os1 v = wv' os1 v) \<Longrightarrow>
     write_elements wv first os ar = write_elements wv' first' os' ar'"
  using write_elements_eq [of ar' wv wv' first' os'] by simp

lemma write_array_cong [fundef_cong]:
  "ar = ar' \<Longrightarrow> os = os' \<Longrightarrow>
   (\<And>v os1. v \<in> set ar' \<Longrightarrow> wv os1 v = wv' os1 v) \<Longrightarrow>
     write_array wv os ar = write_array wv' os' ar'"
  using write_elements_eq [of ar' wv wv'] by (simp add: write_array_def)

text \<open>
  \<^verbatim>\<open>operator<<(ostream&, const value&)\<close>, lines 296 to 300, with the writers of
  \<^verbatim>\<open>true_\<close>, \<^verbatim>\<open>false_\<close> and \<^verbatim>\<open>null\<close> (lines 281 to 294) and of a double that
  \<^verbatim>\<open>visit\<close> selects.
\<close>

fun write_value :: "'n stdlib \<Rightarrow> 'n value_writer" where
  "write_value L os (Object obj) = write_object (write_value L) os obj"
| "write_value L os (Array ar) = write_array (write_value L) os ar"
| "write_value L os (String str) = Inr (write_string os str)"
| "write_value L os (Number x) = Inr (put (num_put L x) os)"
| "write_value L os JTrue = Inr (put ''true'' os)"
| "write_value L os JFalse = Inr (put ''false'' os)"
| "write_value L os Null = Inr (put ''null'' os)"

text \<open>The text written for a value on a new stream.\<close>

definition serialize :: "'n stdlib \<Rightarrow> 'n json_value \<Rightarrow> failure + string" where
  "serialize L v = (case write_value L new_ostream v of Inl e \<Rightarrow> Inl e | Inr os \<Rightarrow> Inr (out os))"

section \<open>The output format, as the specification words it\<close>

text \<open>
  A string is written between double quotes, with the eight characters
  \<^verbatim>\<open>" \ / \b \f \n \r \t\<close> in their two-character escape forms and every other
  character unchanged.
\<close>

definition escape_seq :: "char \<Rightarrow> string" where
  "escape_seq c =
     (if c = CHR 0x22 then [CHR 0x5C, CHR 0x22]
      else if c = CHR 0x5C then [CHR 0x5C, CHR 0x5C]
      else if c = CHR ''/'' then [CHR 0x5C, CHR ''/'']
      else if c = CHR 0x08 then [CHR 0x5C, CHR ''b'']
      else if c = CHR 0x0C then [CHR 0x5C, CHR ''f'']
      else if c = CHR 0x0A then [CHR 0x5C, CHR ''n'']
      else if c = CHR 0x0D then [CHR 0x5C, CHR ''r'']
      else if c = CHR 0x09 then [CHR 0x5C, CHR ''t'']
      else [c])"

definition quoted :: "string \<Rightarrow> string" where
  "quoted str = CHR 0x22 # concat (map escape_seq str) @ [CHR 0x22]"

text \<open>
  An object or array is written as the open bracket, a newline, each child on a line
  of its own after an indent two spaces deeper than the collection's, \<^verbatim>\<open>,\<close> and a
  newline between children, a newline, and the close bracket after the collection's
  indent. \<open>layout L n v\<close> is the text of \<open>v\<close> at the indent \<open>n\<close>.
\<close>

definition spaces :: "nat \<Rightarrow> string" where
  "spaces n = replicate n (CHR '' '')"

fun commas :: "string list \<Rightarrow> string" where
  "commas [] = []"
| "commas [x] = x"
| "commas (x # y # xs) = x @ [CHR '','', CHR 0x0A] @ commas (y # xs)"

fun layout :: "'n stdlib \<Rightarrow> nat \<Rightarrow> 'n json_value \<Rightarrow> string" where
  "layout L n (Object obj) =
     [CHR ''{'', CHR 0x0A]
     @ commas (map (\<lambda>(key, val). spaces (n + 2) @ quoted key @ '': '' @ layout L (n + 2) val) obj)
     @ [CHR 0x0A] @ spaces n @ ''}''"
| "layout L n (Array ar) =
     [CHR ''['', CHR 0x0A]
     @ commas (map (\<lambda>el. spaces (n + 2) @ layout L (n + 2) el) ar)
     @ [CHR 0x0A] @ spaces n @ '']''"
| "layout L n (String str) = quoted str"
| "layout L n (Number x) = num_put L x"
| "layout L n JTrue = ''true''"
| "layout L n JFalse = ''false''"
| "layout L n Null = ''null''"

text \<open>
  The invariant of the value model: the members of every object, at any depth, are in
  strictly increasing key order (so the keys are unique).
\<close>

definition sorted_keys :: "(string \<times> 'v) list \<Rightarrow> bool" where
  "sorted_keys obj = sorted_wrt (<) (map fst obj)"

fun wf_value :: "'n json_value \<Rightarrow> bool" where
  "wf_value (Object obj) = (sorted_keys obj \<and> (\<forall>(key, val) \<in> set obj. wf_value val))"
| "wf_value (Array ar) = (\<forall>el \<in> set ar. wf_value el)"
| "wf_value v = True"

text \<open>
  Values that the output grammar expresses exactly. What follows a value in a text
  that the writers produce is the end of the text, a newline, or a comma and a
  newline (\<open>follow\<close>). A number is exact when the formatter writes it as a text that
  starts with a digit or a minus sign and that the scanner, whatever follows, reads
  back in full as the same number; a value is exact when all its numbers are.
  \<open>atom\<close> tells the values that are read as a token up to the next delimiter, so
  that reading one at the very end of the input meets the end (\<^verbatim>\<open>eofbit\<close>).
\<close>

fun follow :: "string \<Rightarrow> bool" where
  "follow [] = True"
| "follow [c] = (c = CHR 0x0A)"
| "follow (c # d # r) = (c = CHR 0x0A \<or> (c = CHR '','' \<and> d = CHR 0x0A))"

definition number_exact :: "'n stdlib \<Rightarrow> 'n \<Rightarrow> bool" where
  "number_exact L x =
     (num_put L x \<noteq> []
      \<and> (isdigit (hd (num_put L x)) \<or> hd (num_put L x) = CHR ''-'')
      \<and> (\<forall>rest. follow rest \<longrightarrow>
            num_get L (num_put L x @ rest) = (length (num_put L x), Some x)))"

fun numbers_exact :: "'n stdlib \<Rightarrow> 'n json_value \<Rightarrow> bool" where
  "numbers_exact L (Object obj) = (\<forall>(key, val) \<in> set obj. numbers_exact L val)"
| "numbers_exact L (Array ar) = (\<forall>el \<in> set ar. numbers_exact L el)"
| "numbers_exact L (Number x) = number_exact L x"
| "numbers_exact L v = True"

fun atom :: "'n json_value \<Rightarrow> bool" where
  "atom (Object obj) = False"
| "atom (Array ar) = False"
| "atom (String str) = False"
| "atom v = True"

text \<open>
  An instance of the library parameters on which the parsers and writers can be
  evaluated: the numbers are the naturals, written and scanned as unsigned decimal
  integers (as \<^verbatim>\<open>double\<close>s of up to six digits are).
\<close>

fun digits_value :: "string \<Rightarrow> nat \<Rightarrow> nat" where
  "digits_value [] acc = acc"
| "digits_value (c # cs) acc = digits_value cs (10 * acc + (of_char c - 48))"

definition dec_get :: "string \<Rightarrow> nat \<times> nat option" where
  "dec_get cs =
     (let ds = takeWhile isdigit cs
      in (length ds, if ds = [] then None else Some (digits_value ds 0)))"

fun dec_put :: "nat \<Rightarrow> string" where
  "dec_put n =
     (if n < 10 then [''0123456789'' ! n]
      else dec_put (n div 10) @ [''0123456789'' ! (n mod 10)])"

definition dec_lib :: "bool \<Rightarrow> nat stdlib" where
  "dec_lib moves =
     \<lparr>num_get = dec_get, num_put = dec_put, num_zero = 0, num_fail = (\<lambda>w. 0),
      moves_rejected = moves\<rparr>"

section \<open>Collections that end at a failure\<close>

text \<open>
  The run of an array loop that ends at a failed element parse:
  \<open>elements_then_failure pv s val xs sf\<close> says that from the stream \<open>s\<close>, with \<open>val\<close> the
  value that the loop variable holds, the element parses return the values \<open>xs\<close> in
  turn, each with a stream that has not failed and whose next character is a comma,
  and that the element parse after them returns with the stream \<open>sf\<close>, failed.
  \<open>members_then_failure\<close> says the same of the member parses of an object loop, with
  \<open>m\<close> what the loop variable holds and \<open>obj\<close> the object so far (what an insertion leaves
  in the loop variable depends on it). \<open>insert_all\<close> is the object after the insertion
  of the members in turn.
\<close>

fun elements_then_failure ::
  "'n value_parser \<Rightarrow> istream \<Rightarrow> 'n json_value \<Rightarrow> 'n json_value list \<Rightarrow> istream \<Rightarrow> bool" where
  "elements_then_failure pv s val [] s' =
     (case pv s val of Inl e \<Rightarrow> False | Inr (s1, v) \<Rightarrow> fail s1 \<and> s1 = s')"
| "elements_then_failure pv s val (x # xs) s' =
     (case pv s val of
        Inl e \<Rightarrow> False
      | Inr (s1, v) \<Rightarrow>
          v = x \<and> \<not> fail s1 \<and>
          (case get_char s1 of
             (s2, None) \<Rightarrow> False
           | (s2, Some c) \<Rightarrow>
               c = CHR '','' \<and> elements_then_failure pv s2 (moved_from x) xs s'))"

fun members_then_failure ::
  "'n value_parser \<Rightarrow> bool \<Rightarrow> istream \<Rightarrow> 'n member \<Rightarrow> 'n object \<Rightarrow> 'n member list \<Rightarrow>
     istream \<Rightarrow> bool" where
  "members_then_failure pv moves s m obj [] s' =
     (case parse_member pv s m of Inl e \<Rightarrow> False | Inr (s1, m1) \<Rightarrow> fail s1 \<and> s1 = s')"
| "members_then_failure pv moves s m obj (x # xs) s' =
     (case parse_member pv s m of
        Inl e \<Rightarrow> False
      | Inr (s1, m1) \<Rightarrow>
          m1 = x \<and> \<not> fail s1 \<and>
          (case get_char s1 of
             (s2, None) \<Rightarrow> False
           | (s2, Some c) \<Rightarrow>
               c = CHR '','' \<and>
               members_then_failure pv moves s2 (snd (insert_move moves x obj))
                 (fst (insert_move moves x obj)) xs s'))"

definition insert_all :: "'n member list \<Rightarrow> 'n object \<Rightarrow> 'n object" where
  "insert_all xs obj = fold (\<lambda>x o1. fst (map_insert x o1)) xs obj"

section \<open>Stream lemmas\<close>

lemma advance_sel [simp]:
  "pending (advance k s) = drop k (pending s)"
  "consumed (advance k s) = rev (take k (pending s)) @ consumed s"
  "eofbit (advance k s) = eofbit s"
  "failbit (advance k s) = failbit s"
  "badbit (advance k s) = badbit s"
  "skipws (advance k s) = skipws s"
  by (simp_all add: advance_def)

lemma advance_0 [simp]: "advance 0 s = s"
  by (simp add: advance_def)

lemma advance_advance [simp]: "advance j (advance k s) = advance (k + j) s"
proof -
  have "take (k + j) (pending s) = take k (pending s) @ take j (drop k (pending s))"
    by (rule take_add)
  moreover have "drop j (drop k (pending s)) = drop (k + j) (pending s)"
    by (simp add: add.commute)
  ultimately show ?thesis
    by (simp add: advance_def)
qed

lemma advance_update [simp]:
  "advance k (s\<lparr>skipws := b\<rparr>) = (advance k s)\<lparr>skipws := b\<rparr>"
  "advance k (s\<lparr>eofbit := b\<rparr>) = (advance k s)\<lparr>eofbit := b\<rparr>"
  "advance k (s\<lparr>failbit := b\<rparr>) = (advance k s)\<lparr>failbit := b\<rparr>"
  by (simp_all add: advance_def)

lemma good_advance [simp]: "good (advance k s) = good s"
  by (simp add: good_def)

lemma good_skipws [simp]: "good (s\<lparr>skipws := b\<rparr>) = good s"
  by (simp add: good_def)

lemma takeWhile_spaces:
  "\<forall>x\<in>set ws. isspace x \<Longrightarrow> \<not> isspace c \<Longrightarrow> takeWhile isspace (ws @ c # r) = ws"
  by (induction ws) auto

lemma get_char_skip:
  assumes "good s" "pending s = ws @ c # r" "\<forall>x\<in>set ws. isspace x" "\<not> isspace c"
    "skipws s \<or> ws = []"
  shows "get_char s = (advance (Suc (length ws)) s, Some c)"
proof (cases "skipws s")
  case True
  have "takeWhile isspace (pending s) = ws"
    using assms by (simp add: takeWhile_spaces)
  then show ?thesis
    using assms True by (simp add: get_char_def sentry_def Let_def)
next
  case False
  then show ?thesis
    using assms by (simp add: get_char_def sentry_def)
qed

lemma get_char_raw:
  assumes "good s" "pending s = c # r" "\<not> skipws s"
  shows "get_char s = (advance (Suc 0) s, Some c)"
  using assms by (simp add: get_char_def sentry_def)

lemma unget_advance:
  assumes "good s" "pending s = ws @ c # r"
  shows "unget (advance (Suc (length ws)) s) = advance (length ws) s"
  using assms by (simp add: unget_def fail_def good_def advance_def)

lemma read_one_character_skip:
  assumes "good s" "pending s = ws @ ch # r" "\<forall>x\<in>set ws. isspace x" "\<not> isspace ch"
    "skipws s \<or> ws = []"
  shows "read_one_character s ch = Inr (advance (Suc (length ws)) s)"
  using get_char_skip [OF assms] by (simp add: read_one_character_def)

lemma escape_seq_cases:
  "(escape_seq c = [c] \<and> c \<noteq> CHR 0x5C \<and> c \<noteq> CHR 0x22) \<or>
   (\<exists>e. escape_seq c = [CHR 0x5C, e] \<and>
      (if e = CHR ''b'' then CHR 0x08
       else if e = CHR ''f'' then CHR 0x0C
       else if e = CHR ''n'' then CHR 0x0A
       else if e = CHR ''r'' then CHR 0x0D
       else if e = CHR ''t'' then CHR 0x09
       else e) = c)"
  by (simp add: escape_seq_def)

lemma string_loop_escaped:
  assumes "good s" "\<not> skipws s" "pending s = concat (map escape_seq str) @ CHR 0x22 # r"
  shows "string_loop s acc = Inr (advance (Suc (length (concat (map escape_seq str)))) s, acc @ str)"
  using assms
proof (induction str arbitrary: s acc)
  case Nil
  then show ?case
    by (subst string_loop.simps) (simp add: get_char_raw)
next
  case (Cons c str)
  let ?t = "concat (map escape_seq str)"
  consider (plain) "escape_seq c = [c]" "c \<noteq> CHR 0x5C" "c \<noteq> CHR 0x22"
    | (esc) e where "escape_seq c = [CHR 0x5C, e]"
      "(if e = CHR ''b'' then CHR 0x08
       else if e = CHR ''f'' then CHR 0x0C
       else if e = CHR ''n'' then CHR 0x0A
       else if e = CHR ''r'' then CHR 0x0D
       else if e = CHR ''t'' then CHR 0x09
       else e) = c"
    using escape_seq_cases [of c] by blast
  then show ?case
  proof cases
    case plain
    have p: "pending s = c # ?t @ CHR 0x22 # r"
      using Cons.prems plain by simp
    have g: "get_char s = (advance (Suc 0) s, Some c)"
      using Cons.prems p by (simp add: get_char_raw)
    have "string_loop (advance (Suc 0) s) (acc @ [c])
      = Inr (advance (Suc (length ?t)) (advance (Suc 0) s), (acc @ [c]) @ str)"
      by (rule Cons.IH) (use Cons.prems p in simp_all)
    then show ?thesis
      by (subst string_loop.simps) (simp add: g plain)
  next
    case esc
    have p: "pending s = CHR 0x5C # e # ?t @ CHR 0x22 # r"
      using Cons.prems esc by simp
    have g: "get_char s = (advance (Suc 0) s, Some (CHR 0x5C))"
      using Cons.prems p by (simp add: get_char_raw)
    have g2: "get_char (advance (Suc 0) s) = (advance (Suc 0) (advance (Suc 0) s), Some e)"
      by (rule get_char_raw [where r = "?t @ CHR 0x22 # r"]) (use Cons.prems p in simp_all)
    have e: "escaped_character (advance (Suc 0) s) = Inr (advance (Suc (Suc 0)) s, c)"
      using esc(2) by (simp add: escaped_character_def g2)
    have "string_loop (advance (Suc (Suc 0)) s) (acc @ [c])
      = Inr (advance (Suc (length ?t)) (advance (Suc (Suc 0)) s), (acc @ [c]) @ str)"
      by (rule Cons.IH) (use Cons.prems p in simp_all)
    then show ?thesis
      by (subst string_loop.simps) (simp add: g e esc)
  qed
qed

lemma parse_string_quoted:
  assumes "good s" "skipws s" "pending s = ws @ quoted str @ r" "\<forall>x\<in>set ws. isspace x"
  shows "parse_string s acc = Inr (advance (length ws + length (quoted str)) s, acc @ str)"
proof -
  let ?t = "concat (map escape_seq str)"
  have p: "pending s = ws @ CHR 0x22 # (?t @ CHR 0x22 # r)"
    using assms by (simp add: quoted_def)
  have r1: "read_one_character s (CHR 0x22) = Inr (advance (Suc (length ws)) s)"
    by (rule read_one_character_skip [OF assms(1) p assms(4)]) (simp_all add: isspace_def assms)
  let ?s1 = "(advance (Suc (length ws)) s)\<lparr>skipws := False\<rparr>"
  have "string_loop ?s1 acc = Inr (advance (Suc (length ?t)) ?s1, acc @ str)"
    by (rule string_loop_escaped [where r = r]) (use assms p in simp_all)
  then show ?thesis
    using assms(2) by (simp add: parse_string_def r1 quoted_def)
qed

lemma write_char_escape_seq: "write_char c os = put (escape_seq c) os"
  by (simp add: write_char_def escape_seq_def find_char_def escapes_def esc_chars_def)

lemma put_put [simp]: "put b (put a os) = put (a @ b) os"
  by (simp add: put_def)

lemma fold_write_char: "fold write_char str os = put (concat (map escape_seq str)) os"
  by (induction str arbitrary: os) (simp_all add: write_char_escape_seq put_def)

lemma write_string_quoted: "write_string os str = put (quoted str) os"
  by (simp add: write_string_def fold_write_char quoted_def)

section \<open>Strings and their escapes\<close>

text \<open>
  Claim C5 (escape round trip): a string value, in particular one that holds each of
  the eight characters double quote, backslash, slash, backspace, form feed, newline,
  carriage return and tab, is written by \<open>write_string\<close> to a text from which
  \<open>parse_string\<close> reads the identical character sequence, consuming the whole text
  and leaving the stream good. It holds for every string.
\<close>

theorem escape_round_trip:
  "parse_string (open_stream (out (write_string new_ostream str))) [] =
     Inr (\<lparr>consumed = rev (out (write_string new_ostream str)), pending = [],
            eofbit = False, failbit = False, badbit = False, skipws = True\<rparr>, str)"
proof -
  let ?s = "open_stream (quoted str)"
  have "parse_string ?s [] = Inr (advance (length (quoted str)) ?s, str)"
    using parse_string_quoted [of ?s "[]" str "[]" "[]"]
    by (simp add: open_stream_def good_def)
  moreover have "out (write_string new_ostream str) = quoted str"
    by (simp add: write_string_quoted put_def new_ostream_def)
  ultimately show ?thesis
    by (simp add: advance_def open_stream_def)
qed

theorem escape_round_trip_witness:
  "parse_string
     (open_stream
        [CHR 0x22, CHR 0x5C, CHR 0x22, CHR 0x5C, CHR 0x5C, CHR 0x5C, CHR ''/'',
         CHR 0x5C, CHR ''b'', CHR 0x5C, CHR ''f'', CHR 0x5C, CHR ''n'',
         CHR 0x5C, CHR ''r'', CHR 0x5C, CHR ''t'', CHR 0x22]) [] =
     Inr (\<lparr>consumed =
              [CHR 0x22, CHR ''t'', CHR 0x5C, CHR ''r'', CHR 0x5C, CHR ''n'', CHR 0x5C,
               CHR ''f'', CHR 0x5C, CHR ''b'', CHR 0x5C, CHR ''/'', CHR 0x5C, CHR 0x5C,
               CHR 0x5C, CHR 0x22, CHR 0x5C, CHR 0x22],
            pending = [], eofbit = False, failbit = False, badbit = False, skipws = True\<rparr>,
          [CHR 0x22, CHR 0x5C, CHR ''/'', CHR 0x08, CHR 0x0C, CHR 0x0A, CHR 0x0D, CHR 0x09])"
  using escape_round_trip
    [of "[CHR 0x22, CHR 0x5C, CHR ''/'', CHR 0x08, CHR 0x0C, CHR 0x0A, CHR 0x0D, CHR 0x09]"]
  by (simp add: write_string_quoted quoted_def escape_seq_def put_def new_ostream_def)

section \<open>The writers produce the layout\<close>

lemma put_sel [simp]: "out (put txt os) = out os @ txt" "iword (put txt os) = iword os"
  by (simp_all add: put_def)

lemma put_Nil [simp]: "put [] os = os"
  by (simp add: put_def)

lemma indent_spaces: "0 \<le> iword os \<Longrightarrow> indent os = Inr (put (spaces (nat (iword os))) os)"
  by (simp add: indent_def spaces_def)

lemma commas_Cons: "commas (x # xs) = x @ (if xs = [] then [] else [CHR '','', CHR 0x0A] @ commas xs)"
  by (cases xs) simp_all

lemma write_members_layout:
  assumes "\<And>k v os1. (k, v) \<in> set obj \<Longrightarrow> 0 \<le> iword os1 \<Longrightarrow>
      wv os1 v = Inr (put (f (nat (iword os1)) v) os1)"
    and "0 \<le> iword os"
  shows "write_members wv first os obj =
     Inr (put ((if first \<or> obj = [] then [] else [CHR '','', CHR 0x0A])
       @ commas (map (\<lambda>(key, val). spaces (nat (iword os)) @ quoted key @ '': ''
            @ f (nat (iword os)) val) obj)) os)"
  using assms
proof (induction obj arbitrary: first os)
  case Nil
  show ?case by simp
next
  case (Cons m obj)
  obtain k v where m: "m = (k, v)" by (cases m)
  have head: "\<And>os1. 0 \<le> iword os1 \<Longrightarrow> wv os1 v = Inr (put (f (nat (iword os1)) v) os1)"
    using Cons.prems(1) [of k v] by (simp add: m)
  have tail: "\<And>os1. 0 \<le> iword os1 \<Longrightarrow> write_members wv False os1 obj =
     Inr (put ((if obj = [] then [] else [CHR '','', CHR 0x0A])
       @ commas (map (\<lambda>(key, val). spaces (nat (iword os1)) @ quoted key @ '': ''
            @ f (nat (iword os1)) val) obj)) os1)"
  proof -
    fix os1 :: ostream
    assume os1: "0 \<le> iword os1"
    have "write_members wv False os1 obj =
      Inr (put ((if False \<or> obj = [] then [] else [CHR '','', CHR 0x0A])
       @ commas (map (\<lambda>(key, val). spaces (nat (iword os1)) @ quoted key @ '': ''
            @ f (nat (iword os1)) val) obj)) os1)"
    proof (rule Cons.IH [OF _ os1])
      fix k' v' os2
      assume "(k', v') \<in> set obj" "0 \<le> iword (os2 :: ostream)"
      then show "wv os2 v' = Inr (put (f (nat (iword os2)) v') os2)"
        using Cons.prems(1) [of k' v' os2] by simp
    qed
    then show "?thesis os1" by simp
  qed
  show ?case
    using Cons.prems(2)
    by (simp add: m indent_spaces write_string_quoted head tail commas_Cons)
qed

lemma write_elements_layout:
  assumes "\<And>v os1. v \<in> set ar \<Longrightarrow> 0 \<le> iword os1 \<Longrightarrow>
      wv os1 v = Inr (put (f (nat (iword os1)) v) os1)"
    and "0 \<le> iword os"
  shows "write_elements wv first os ar =
     Inr (put ((if first \<or> ar = [] then [] else [CHR '','', CHR 0x0A])
       @ commas (map (\<lambda>el. spaces (nat (iword os)) @ f (nat (iword os)) el) ar)) os)"
  using assms
proof (induction ar arbitrary: first os)
  case Nil
  show ?case by simp
next
  case (Cons v ar)
  have head: "\<And>os1. 0 \<le> iword os1 \<Longrightarrow> wv os1 v = Inr (put (f (nat (iword os1)) v) os1)"
    using Cons.prems(1) [of v] by simp
  have tail: "\<And>os1. 0 \<le> iword os1 \<Longrightarrow> write_elements wv False os1 ar =
     Inr (put ((if ar = [] then [] else [CHR '','', CHR 0x0A])
       @ commas (map (\<lambda>el. spaces (nat (iword os1)) @ f (nat (iword os1)) el) ar)) os1)"
  proof -
    fix os1 :: ostream
    assume os1: "0 \<le> iword os1"
    have "write_elements wv False os1 ar =
      Inr (put ((if False \<or> ar = [] then [] else [CHR '','', CHR 0x0A])
       @ commas (map (\<lambda>el. spaces (nat (iword os1)) @ f (nat (iword os1)) el) ar)) os1)"
    proof (rule Cons.IH [OF _ os1])
      fix v' os2
      assume "v' \<in> set ar" "0 \<le> iword (os2 :: ostream)"
      then show "wv os2 v' = Inr (put (f (nat (iword os2)) v') os2)"
        using Cons.prems(1) [of v' os2] by simp
    qed
    then show "?thesis os1" by simp
  qed
  show ?case
    using Cons.prems(2)
    by (simp add: indent_spaces head tail commas_Cons)
qed

lemma indent_sel [simp]:
  "iword (increase_indent os) = iword os + 2" "out (increase_indent os) = out os"
  "iword (decrease_indent os) = iword os - 2" "out (decrease_indent os) = out os"
  by (simp_all add: increase_indent_def decrease_indent_def)

lemma decrease_put_increase:
  "decrease_indent (put b (increase_indent (put a os))) = put (a @ b) os"
  by (simp add: increase_indent_def decrease_indent_def put_def)

lemma write_object_layout:
  assumes "\<And>k v os1. (k, v) \<in> set obj \<Longrightarrow> 0 \<le> iword os1 \<Longrightarrow>
      wv os1 v = Inr (put (f (nat (iword os1)) v) os1)"
    and "0 \<le> iword os"
  shows "write_object wv os obj =
     Inr (put ([CHR ''{'', CHR 0x0A]
       @ commas (map (\<lambda>(key, val). spaces (nat (iword os) + 2) @ quoted key @ '': ''
            @ f (nat (iword os) + 2) val) obj)
       @ [CHR 0x0A] @ spaces (nat (iword os)) @ ''}'') os)"
proof -
  let ?os1 = "increase_indent (put [CHR ''{'', CHR 0x0A] os)"
  have n: "nat (iword os + 2) = Suc (Suc (nat (iword os)))"
    using assms(2) by simp
  have pos: "0 \<le> iword ?os1" using assms(2) by simp
  have "write_members wv True ?os1 obj =
     Inr (put ((if True \<or> obj = [] then [] else [CHR '','', CHR 0x0A])
       @ commas (map (\<lambda>(key, val). spaces (nat (iword ?os1)) @ quoted key @ '': ''
            @ f (nat (iword ?os1)) val) obj)) ?os1)"
  proof (rule write_members_layout [of obj wv f ?os1 True])
    fix k v os1
    assume "(k, v) \<in> set obj" "0 \<le> iword (os1 :: ostream)"
    then show "wv os1 v = Inr (put (f (nat (iword os1)) v) os1)" by (rule assms(1))
  qed (rule pos)
  then show ?thesis
    using assms(2)
    by (simp add: write_object_def n decrease_put_increase indent_spaces)
qed

lemma write_array_layout:
  assumes "\<And>v os1. v \<in> set ar \<Longrightarrow> 0 \<le> iword os1 \<Longrightarrow>
      wv os1 v = Inr (put (f (nat (iword os1)) v) os1)"
    and "0 \<le> iword os"
  shows "write_array wv os ar =
     Inr (put ([CHR ''['', CHR 0x0A]
       @ commas (map (\<lambda>el. spaces (nat (iword os) + 2) @ f (nat (iword os) + 2) el) ar)
       @ [CHR 0x0A] @ spaces (nat (iword os)) @ '']'') os)"
proof -
  let ?os1 = "increase_indent (put [CHR ''['', CHR 0x0A] os)"
  have n: "nat (iword os + 2) = Suc (Suc (nat (iword os)))"
    using assms(2) by simp
  have pos: "0 \<le> iword ?os1" using assms(2) by simp
  have "write_elements wv True ?os1 ar =
     Inr (put ((if True \<or> ar = [] then [] else [CHR '','', CHR 0x0A])
       @ commas (map (\<lambda>el. spaces (nat (iword ?os1)) @ f (nat (iword ?os1)) el) ar)) ?os1)"
  proof (rule write_elements_layout [of ar wv f ?os1 True])
    fix v os1
    assume "v \<in> set ar" "0 \<le> iword (os1 :: ostream)"
    then show "wv os1 v = Inr (put (f (nat (iword os1)) v) os1)" by (rule assms(1))
  qed (rule pos)
  then show ?thesis
    using assms(2)
    by (simp add: write_array_def n decrease_put_increase indent_spaces)
qed

lemma write_value_layout:
  "0 \<le> iword os \<Longrightarrow> write_value L os v = Inr (put (layout L (nat (iword os)) v) os)"
proof (induction L os v rule: write_value.induct)
  case (1 L os obj)
  show ?case
    using write_object_layout [of obj "write_value L" "layout L" os] 1 by simp
next
  case (2 L os ar)
  show ?case
    using write_array_layout [of ar "write_value L" "layout L" os] 2 by simp
qed (simp_all add: write_string_quoted)

text \<open>
  Claim C9 (collection layout): with an indent depth \<open>n \<ge> 0\<close> in the stream,
  writing a value appends \<open>layout L n v\<close>, that is, for an object or array: the open
  bracket, a newline, each child on its own line after \<open>n + 2\<close> spaces, a comma and a
  newline between children, a newline after the last child and the close bracket
  after \<open>n\<close> spaces; the indent depth afterwards is the depth before. An empty object
  or array is not compacted: it is written as the open bracket, the two newlines and
  the close bracket after \<open>n\<close> spaces.
\<close>

theorem write_value_format:
  "0 \<le> iword os \<Longrightarrow>
     (\<exists>os'. write_value L os v = Inr os'
        \<and> out os' = out os @ layout L (nat (iword os)) v \<and> iword os' = iword os)
     \<and> layout L n (Object obj) =
         [CHR ''{'', CHR 0x0A]
         @ commas (map (\<lambda>(key, val). spaces (n + 2) @ quoted key @ '': ''
              @ layout L (n + 2) val) obj)
         @ [CHR 0x0A] @ spaces n @ ''}''
     \<and> layout L n (Array ar) =
         [CHR ''['', CHR 0x0A]
         @ commas (map (\<lambda>el. spaces (n + 2) @ layout L (n + 2) el) ar)
         @ [CHR 0x0A] @ spaces n @ '']''
     \<and> layout L n (Object []) = [CHR ''{'', CHR 0x0A, CHR 0x0A] @ spaces n @ ''}''
     \<and> layout L n (Array []) = [CHR ''['', CHR 0x0A, CHR 0x0A] @ spaces n @ '']''"
  by (simp add: write_value_layout)

theorem write_value_format_witness:
  "0 \<le> iword new_ostream
   \<and> (\<exists>os'. write_value (dec_lib False) new_ostream
              (Array [Object [], Number 7, Array [JTrue]]) = Inr os'
        \<and> out os' = ''[\<newline>  {\<newline>\<newline>  },\<newline>  7,\<newline>  [\<newline>    true\<newline>  ]\<newline>]''
        \<and> iword os' = 0)"
  using write_value_format
    [of new_ostream "dec_lib False" "Array [Object [], Number 7, Array [JTrue]]" 0 "[]" "[]"]
  by (simp add: new_ostream_def dec_lib_def spaces_def numeral_2_eq_2)

text \<open>
  Claim C10 (object keys): in the text of an object, each key stands as
  \<open>write_string\<close> writes it, the way string values are written: between double
  quotes, with each of the eight escapable characters in its two-character form
  (\<open>escape_seq\<close>).
\<close>

theorem object_key_written_as_string:
  "0 \<le> iword os \<Longrightarrow>
     write_object (write_value L) os obj =
       Inr (put ([CHR ''{'', CHR 0x0A]
         @ commas (map (\<lambda>(key, val). spaces (nat (iword os) + 2)
              @ out (write_string new_ostream key) @ '': ''
              @ layout L (nat (iword os) + 2) val) obj)
         @ [CHR 0x0A] @ spaces (nat (iword os)) @ ''}'') os)
     \<and> out (write_string new_ostream key) =
         CHR 0x22 # concat (map escape_seq key) @ [CHR 0x22]
     \<and> write_value L os (String key) = Inr (put (out (write_string new_ostream key)) os)"
proof -
  assume os: "0 \<le> iword os"
  have q: "\<And>k. out (write_string new_ostream k) = quoted k"
    by (simp add: write_string_quoted new_ostream_def)
  have "write_object (write_value L) os obj =
     Inr (put ([CHR ''{'', CHR 0x0A]
       @ commas (map (\<lambda>(key, val). spaces (nat (iword os) + 2) @ quoted key @ '': ''
            @ layout L (nat (iword os) + 2) val) obj)
       @ [CHR 0x0A] @ spaces (nat (iword os)) @ ''}'') os)"
    using os by (rule write_object_layout [rotated]) (rule write_value_layout)
  then have "write_object (write_value L) os obj =
     Inr (put ([CHR ''{'', CHR 0x0A]
       @ commas (map (\<lambda>(key, val). spaces (nat (iword os) + 2)
            @ out (write_string new_ostream key) @ '': ''
            @ layout L (nat (iword os) + 2) val) obj)
       @ [CHR 0x0A] @ spaces (nat (iword os)) @ ''}'') os)"
    by (simp only: q)
  moreover have "out (write_string new_ostream key) =
      CHR 0x22 # concat (map escape_seq key) @ [CHR 0x22]"
    by (simp add: q quoted_def)
  moreover have "write_value L os (String key) =
      Inr (put (out (write_string new_ostream key)) os)"
    by (simp add: q) (simp add: write_string_quoted)
  ultimately show ?thesis
    by blast
qed

theorem object_key_written_as_string_witness:
  "0 \<le> iword new_ostream
   \<and> write_object (write_value (dec_lib False)) new_ostream [([CHR ''a'', CHR 0x22, CHR 0x09], Null)] =
       Inr \<lparr>out = [CHR ''{'', CHR 0x0A, CHR '' '', CHR '' '', CHR 0x22, CHR ''a'', CHR 0x5C,
         CHR 0x22, CHR 0x5C, CHR ''t'', CHR 0x22, CHR '':'', CHR '' '', CHR ''n'', CHR ''u'',
         CHR ''l'', CHR ''l'', CHR 0x0A, CHR ''}''], iword = 0\<rparr>"
  using object_key_written_as_string
    [of new_ostream "dec_lib False" "[([CHR ''a'', CHR 0x22, CHR 0x09], Null)]"
      "[CHR ''a'', CHR 0x22, CHR 0x09]"]
  by (simp add: new_ostream_def spaces_def escape_seq_def put_def write_string_quoted
      quoted_def)

section \<open>Case analysis of the parsers\<close>

text \<open>What a parser that returns has done, one case for each path through its code.\<close>

lemma parse_member_cases:
  assumes "parse_member pv s m = Inr (s', m')"
  obtains (member) s1 s3 key s4 val where
      "get_char s = (s1, Some (CHR 0x22))"
      "parse_string (unget s1) (fst m) = Inr (s3, key)"
      "read_one_character s3 (CHR '':'') = Inr s4"
      "pv s4 (snd m) = Inr (s', val)" "m' = (key, val)"
  | (none) s1 ch where
      "get_char s = (s1, Some ch)" "ch \<noteq> CHR 0x22"
      "s' = (unget s1)\<lparr>failbit := True\<rparr>" "m' = m"
proof -
  obtain s1 c where gc: "get_char s = (s1, c)" by (cases "get_char s")
  from assms gc obtain ch where c: "c = Some ch"
    by (cases c) (simp_all add: parse_member_def)
  note pm = assms [unfolded parse_member_def gc c Let_def, simplified]
  show thesis
  proof (cases "ch = CHR 0x22")
    case True
    from pm True obtain s3 key where
      ps: "parse_string (unget s1) (fst m) = Inr (s3, key)"
      by (cases "parse_string (unget s1) (fst m)") auto
    from pm True ps obtain s4 where
      r: "read_one_character s3 (CHR '':'') = Inr s4"
      by (cases "read_one_character s3 (CHR '':'')") auto
    from pm True ps r obtain val where
      v: "pv s4 (snd m) = Inr (s', val)" "m' = (key, val)"
      by (cases "pv s4 (snd m)") auto
    show ?thesis
      using member [OF _ ps r v] gc c True by simp
  next
    case False
    with pm have "s' = (unget s1)\<lparr>failbit := True\<rparr>" "m' = m" by simp_all
    then show ?thesis using none gc c False by simp
  qed
qed

lemma object_loop_cases:
  assumes "object_loop pv moves (Suc k) s m obj = Inr (s', obj')"
  obtains (stop) m1 where
      "parse_member pv s m = Inr (s', m1)" "fail s'" "obj' = obj"
  | (continue) s1 m1 obj1 m2 s2 where
      "parse_member pv s m = Inr (s1, m1)" "\<not> fail s1"
      "insert_move moves m1 obj = (obj1, m2)"
      "get_char s1 = (s2, Some (CHR '',''))"
      "object_loop pv moves k s2 m2 obj1 = Inr (s', obj')"
  | (last) s1 m1 m2 s2 ch where
      "parse_member pv s m = Inr (s1, m1)" "\<not> fail s1"
      "insert_move moves m1 obj = (obj', m2)"
      "get_char s1 = (s2, Some ch)" "ch \<noteq> CHR '',''" "s' = unget s2"
proof -
  from assms obtain s1 m1 where pm: "parse_member pv s m = Inr (s1, m1)"
    by (cases "parse_member pv s m") auto
  show thesis
  proof (cases "fail s1")
    case True
    then show ?thesis using assms pm stop by simp
  next
    case False
    obtain obj1 m2 where im: "insert_move moves m1 obj = (obj1, m2)"
      by (cases "insert_move moves m1 obj")
    obtain s2 c where gc: "get_char s1 = (s2, c)" by (cases "get_char s1")
    from assms pm False im gc obtain ch where c: "c = Some ch"
      by (cases c) simp_all
    show ?thesis
    proof (cases "ch = CHR '',''")
      case True
      then show ?thesis using assms pm False im gc c continue by simp
    next
      case ne: False
      then have "s' = unget s2" "obj' = obj1" using assms pm False im gc c by simp_all
      then show ?thesis using pm False im gc c ne last by simp
    qed
  qed
qed

lemma parse_object_cases:
  assumes "parse_object pv moves k s obj = Inr (s', obj')"
  obtains s1 s2 where
    "read_one_character s (CHR ''{'') = Inr s1"
    "object_loop pv moves k s1 ([], Object []) obj = Inr (s2, obj')"
    "read_one_character (clear s2) (CHR ''}'') = Inr s'"
proof -
  from assms obtain s1 where r1: "read_one_character s (CHR ''{'') = Inr s1"
    by (cases "read_one_character s (CHR ''{'')") (auto simp: parse_object_def)
  from assms r1 obtain s2 o2 where l: "object_loop pv moves k s1 ([], Object []) obj = Inr (s2, o2)"
    by (cases "object_loop pv moves k s1 ([], Object []) obj") (auto simp: parse_object_def)
  from assms r1 l have "read_one_character (clear s2) (CHR ''}'') = Inr s'" "o2 = obj'"
    by (cases "read_one_character (clear s2) (CHR ''}'')"; simp add: parse_object_def)+
  then show ?thesis using that r1 l by simp
qed

lemma array_loop_cases:
  assumes "array_loop pv (Suc k) s val ar = Inr (s', ar')"
  obtains (stop) val1 where
      "pv s val = Inr (s', val1)" "fail s'" "ar' = ar"
  | (continue) s1 val1 s2 where
      "pv s val = Inr (s1, val1)" "\<not> fail s1"
      "get_char s1 = (s2, Some (CHR '',''))"
      "array_loop pv k s2 (moved_from val1) (ar @ [val1]) = Inr (s', ar')"
  | (last) s1 val1 s2 ch where
      "pv s val = Inr (s1, val1)" "\<not> fail s1"
      "get_char s1 = (s2, Some ch)" "ch \<noteq> CHR '',''" "s' = unget s2" "ar' = ar @ [val1]"
proof -
  from assms obtain s1 val1 where p: "pv s val = Inr (s1, val1)"
    by (cases "pv s val") auto
  show thesis
  proof (cases "fail s1")
    case True
    then show ?thesis using assms p stop by simp
  next
    case False
    obtain s2 c where gc: "get_char s1 = (s2, c)" by (cases "get_char s1")
    from assms p False gc obtain ch where c: "c = Some ch"
      by (cases c) simp_all
    show ?thesis
    proof (cases "ch = CHR '',''")
      case True
      then show ?thesis using assms p False gc c continue by simp
    next
      case ne: False
      then have "s' = unget s2" "ar' = ar @ [val1]" using assms p False gc c by simp_all
      then show ?thesis using p False gc c ne last by simp
    qed
  qed
qed

lemma parse_array_cases:
  assumes "parse_array pv k s ar = Inr (s', ar')"
  obtains s1 s2 where
    "read_one_character s (CHR ''['') = Inr s1"
    "array_loop pv k s1 (Object []) ar = Inr (s2, ar')"
    "read_one_character (clear s2) (CHR '']'') = Inr s'"
proof -
  from assms obtain s1 where r1: "read_one_character s (CHR ''['') = Inr s1"
    by (cases "read_one_character s (CHR ''['')") (auto simp: parse_array_def)
  from assms r1 obtain s2 a2 where l: "array_loop pv k s1 (Object []) ar = Inr (s2, a2)"
    by (cases "array_loop pv k s1 (Object []) ar") (auto simp: parse_array_def)
  from assms r1 l have "read_one_character (clear s2) (CHR '']'') = Inr s'" "a2 = ar'"
    by (cases "read_one_character (clear s2) (CHR '']'')"; simp add: parse_array_def)+
  then show ?thesis using that r1 l by simp
qed

lemma parse_value_cases:
  assumes "parse_value L (Suc k) s val = Inr (s', v)"
  obtains (object) s1 obj where
      "get_char s = (s1, Some (CHR ''{''))"
      "parse_object (parse_value L k) (moves_rejected L) k (unget s1) [] = Inr (s', obj)"
      "v = Object obj"
  | (array) s1 ar where
      "get_char s = (s1, Some (CHR ''[''))"
      "parse_array (parse_value L k) k (unget s1) [] = Inr (s', ar)"
      "v = Array ar"
  | (string) s1 str where
      "get_char s = (s1, Some (CHR 0x22))"
      "parse_string (unget s1) [] = Inr (s', str)" "v = String str"
  | (true) s1 where
      "get_char s = (s1, Some (CHR ''t''))" "parse_true (unget s1) = Inr s'" "v = JTrue"
  | (false) s1 where
      "get_char s = (s1, Some (CHR ''f''))" "parse_false (unget s1) = Inr s'" "v = JFalse"
  | (null) s1 where
      "get_char s = (s1, Some (CHR ''n''))" "parse_null (unget s1) = Inr s'" "v = Null"
  | (number) s1 ch x where
      "get_char s = (s1, Some ch)" "isdigit ch \<or> ch = CHR ''-''"
      "get_double L (unget s1) (num_zero L) = (s', x)" "v = Number x"
  | (failed) s1 ch where
      "get_char s = (s1, Some ch)" "s' = (unget s1)\<lparr>failbit := True\<rparr>" "v = val"
proof -
  obtain s1 c where gc: "get_char s = (s1, c)" by (cases "get_char s")
  from assms gc obtain ch where c: "c = Some ch"
    by (cases c) simp_all
  note p = assms [unfolded parse_value.simps gc c Let_def, simplified]
  show thesis
  proof (cases "ch = CHR ''{''")
    case True
    with p show ?thesis
      using object [of s1] gc c
      by (cases "parse_object (parse_value L k) (moves_rejected L) k (unget s1) []") auto
  next
    case n1: False
    show ?thesis
    proof (cases "ch = CHR ''[''")
      case True
      with p show ?thesis
        using array [of s1] gc c
        by (cases "parse_array (parse_value L k) k (unget s1) []") auto
    next
      case n2: False
      show ?thesis
      proof (cases "ch = CHR 0x22")
        case True
        with p show ?thesis
          using string [of s1] gc c by (cases "parse_string (unget s1) []") auto
      next
        case n3: False
        show ?thesis
        proof (cases "ch = CHR ''t''")
          case True
          with p show ?thesis
            using true [of s1] gc c by (cases "parse_true (unget s1)") auto
        next
          case n4: False
          show ?thesis
          proof (cases "ch = CHR ''f''")
            case True
            with p show ?thesis
              using false [of s1] gc c by (cases "parse_false (unget s1)") auto
          next
            case n5: False
            show ?thesis
            proof (cases "ch = CHR ''n''")
              case True
              with p show ?thesis
                using null [of s1] gc c by (cases "parse_null (unget s1)") auto
            next
              case n6: False
              show ?thesis
              proof (cases "isdigit ch \<or> ch = CHR ''-''")
                case True
                with p n1 n2 n3 n4 n5 n6 show ?thesis
                  using number [of s1 ch] gc c
                  by (cases "get_double L (unget s1) (num_zero L)") auto
              next
                case False
                with p n1 n2 n3 n4 n5 n6 show ?thesis
                  using failed [of s1 ch] gc c by auto
              qed
            qed
          qed
        qed
      qed
    qed
  qed
qed

section \<open>Objects keep their keys sorted and unique\<close>

lemma map_insert_set: "set (fst (map_insert m obj)) \<subseteq> insert m (set obj)"
  by (induction obj) (auto split: prod.splits)

lemma map_insert_sorted:
  "sorted_keys obj \<Longrightarrow> sorted_keys (fst (map_insert m obj))"
proof (induction obj)
  case Nil
  show ?case by (simp add: sorted_keys_def)
next
  case (Cons x obj)
  have tl: "sorted_keys obj" using Cons.prems by (simp add: sorted_keys_def)
  show ?case
  proof (cases "fst m < fst x")
    case True
    then show ?thesis using Cons.prems by (auto simp: sorted_keys_def)
  next
    case False
    show ?thesis
    proof (cases "fst x < fst m")
      case True
      have "\<forall>y \<in> set (fst (map_insert m obj)). fst x < fst y"
        using map_insert_set [of m obj] True Cons.prems by (auto simp: sorted_keys_def)
      moreover obtain obj' b where mi: "map_insert m obj = (obj', b)"
        by (cases "map_insert m obj")
      ultimately show ?thesis
        using Cons.IH [OF tl] True False by (simp add: sorted_keys_def)
    next
      case False
      then show ?thesis using \<open>\<not> fst m < fst x\<close> Cons.prems by simp
    qed
  qed
qed

lemma map_insert_present:
  "sorted_keys obj \<Longrightarrow> (key, v0) \<in> set obj \<Longrightarrow> map_insert (key, v) obj = (obj, False)"
proof (induction obj)
  case Nil
  then show ?case by simp
next
  case (Cons x obj)
  have tl: "sorted_keys obj" and hd: "\<forall>y \<in> set obj. fst x < fst y"
    using Cons.prems(1) by (simp_all add: sorted_keys_def)
  show ?case
  proof (cases "x = (key, v0)")
    case True
    then show ?thesis by simp
  next
    case False
    then have "(key, v0) \<in> set obj" using Cons.prems(2) by simp
    then have "fst x < key" "map_insert (key, v) obj = (obj, False)"
      using hd Cons.IH [OF tl] by auto
    then show ?thesis by simp
  qed
qed

lemma wf_moved_from: "wf_value v \<Longrightarrow> wf_value (moved_from v)"
  by (cases v) (simp_all add: sorted_keys_def)

lemma insert_move_wf:
  assumes "insert_move moves m obj = (obj', m')" "wf_value (snd m)" "wf_value (Object obj)"
  shows "wf_value (Object obj') \<and> wf_value (snd m')"
proof -
  have o: "obj' = fst (map_insert m obj)"
    using assms(1) by (auto simp: insert_move_def split: prod.splits)
  have "sorted_keys obj'"
    using assms(3) by (simp add: o map_insert_sorted)
  moreover have "\<forall>(key, val) \<in> set obj'. wf_value val"
    using map_insert_set [of m obj] assms(2,3) by (cases m) (auto simp: o)
  moreover have "wf_value (snd m')"
    using assms(1,2) by (auto simp: insert_move_def wf_moved_from split: prod.splits if_splits)
  ultimately show ?thesis by simp
qed

lemma parse_member_wf:
  assumes pv: "\<forall>s val s' v. pv s val = Inr (s', v) \<longrightarrow> wf_value val \<longrightarrow> wf_value v"
    and pm: "parse_member pv s m = Inr (s', m')" and m: "wf_value (snd m)"
  shows "wf_value (snd m')"
  using pm
proof (cases rule: parse_member_cases)
  case (member s1 s3 key s4 val)
  then show ?thesis using pv m by auto
next
  case (none s1 ch)
  then show ?thesis using m by simp
qed

lemma object_loop_wf:
  assumes pv: "\<forall>s val s' v. pv s val = Inr (s', v) \<longrightarrow> wf_value val \<longrightarrow> wf_value v"
  shows "object_loop pv moves k s m obj = Inr (s', obj') \<Longrightarrow> wf_value (snd m) \<Longrightarrow>
    wf_value (Object obj) \<Longrightarrow> wf_value (Object obj')"
proof (induction k arbitrary: s m obj)
  case 0
  then show ?case by simp
next
  case (Suc k)
  from Suc.prems(1) show ?case
  proof (cases rule: object_loop_cases)
    case (stop m1)
    then show ?thesis using Suc.prems(3) by simp
  next
    case (continue s1 m1 obj1 m2 s2)
    have "wf_value (snd m1)"
      using parse_member_wf [OF pv continue(1) Suc.prems(2)] .
    then have "wf_value (Object obj1)" "wf_value (snd m2)"
      using insert_move_wf [OF continue(3) _ Suc.prems(3)] by simp_all
    then show ?thesis using Suc.IH [OF continue(5)] by simp
  next
    case (last s1 m1 m2 s2 ch)
    have "wf_value (snd m1)"
      using parse_member_wf [OF pv last(1) Suc.prems(2)] .
    then show ?thesis
      using insert_move_wf [OF last(3) _ Suc.prems(3)] by simp
  qed
qed

lemma parse_object_wf:
  assumes pv: "\<forall>s val s' v. pv s val = Inr (s', v) \<longrightarrow> wf_value val \<longrightarrow> wf_value v"
    and "parse_object pv moves k s obj = Inr (s', obj')" "wf_value (Object obj)"
  shows "wf_value (Object obj')"
  using assms(2)
proof (cases rule: parse_object_cases)
  case (1 s1 s2)
  show ?thesis
    using object_loop_wf [OF pv 1(2) _ assms(3)] by (simp add: sorted_keys_def)
qed

lemma array_loop_wf:
  assumes pv: "\<forall>s val s' v. pv s val = Inr (s', v) \<longrightarrow> wf_value val \<longrightarrow> wf_value v"
  shows "array_loop pv k s val ar = Inr (s', ar') \<Longrightarrow> wf_value val \<Longrightarrow>
    wf_value (Array ar) \<Longrightarrow> wf_value (Array ar')"
proof (induction k arbitrary: s val ar)
  case 0
  then show ?case by simp
next
  case (Suc k)
  from Suc.prems(1) show ?case
  proof (cases rule: array_loop_cases)
    case (stop val1)
    then show ?thesis using Suc.prems(3) by simp
  next
    case (continue s1 val1 s2)
    have "wf_value val1" using pv continue(1) Suc.prems(2) by blast
    then have "wf_value (moved_from val1)" "wf_value (Array (ar @ [val1]))"
      using Suc.prems(3) by (auto simp: wf_moved_from)
    then show ?thesis using Suc.IH [OF continue(4)] by simp
  next
    case (last s1 val1 s2 ch)
    have "wf_value val1" using pv last(1) Suc.prems(2) by blast
    then show ?thesis using Suc.prems(3) last(6) by auto
  qed
qed

lemma parse_array_wf:
  assumes pv: "\<forall>s val s' v. pv s val = Inr (s', v) \<longrightarrow> wf_value val \<longrightarrow> wf_value v"
    and "parse_array pv k s ar = Inr (s', ar')" "wf_value (Array ar)"
  shows "wf_value (Array ar')"
  using assms(2)
proof (cases rule: parse_array_cases)
  case (1 s1 s2)
  show ?thesis
    using array_loop_wf [OF pv 1(2) _ assms(3)] by (simp add: sorted_keys_def)
qed

lemma parse_value_wf:
  "parse_value L k s val = Inr (s', v) \<Longrightarrow> wf_value val \<Longrightarrow> wf_value v"
proof (induction k arbitrary: s val s' v)
  case 0
  then show ?case by simp
next
  case (Suc k)
  have pv: "\<forall>s val s' v. parse_value L k s val = Inr (s', v) \<longrightarrow> wf_value val \<longrightarrow> wf_value v"
    using Suc.IH by blast
  from Suc.prems(1) show ?case
  proof (cases rule: parse_value_cases)
    case (object s1 obj)
    then show ?thesis
      using parse_object_wf [OF pv object(2)] by (simp add: sorted_keys_def)
  next
    case (array s1 ar)
    then show ?thesis
      using parse_array_wf [OF pv array(2)] by simp
  next
    case (failed s1 ch)
    then show ?thesis using Suc.prems(2) by simp
  qed simp_all
qed

lemma map_insert_keeps: "set obj \<subseteq> set (fst (map_insert m obj))"
  by (induction obj) (auto split: prod.splits)

lemma object_loop_keeps:
  "object_loop pv moves k s m obj = Inr (s', obj') \<Longrightarrow> sorted_keys obj \<Longrightarrow>
     set obj \<subseteq> set obj' \<and> sorted_keys obj'"
proof (induction k arbitrary: s m obj)
  case 0
  then show ?case by simp
next
  case (Suc k)
  from Suc.prems(1) show ?case
  proof (cases rule: object_loop_cases)
    case (stop m1)
    then show ?thesis using Suc.prems(2) by simp
  next
    case (continue s1 m1 obj1 m2 s2)
    have o: "obj1 = fst (map_insert m1 obj)"
      using continue(3) by (auto simp: insert_move_def split: prod.splits)
    have "sorted_keys obj1" "set obj \<subseteq> set obj1"
      using Suc.prems(2) map_insert_keeps [of obj m1] by (simp_all add: o map_insert_sorted)
    then show ?thesis using Suc.IH [OF continue(5)] by blast
  next
    case (last s1 m1 m2 s2 ch)
    have o: "obj' = fst (map_insert m1 obj)"
      using last(3) by (auto simp: insert_move_def split: prod.splits)
    show ?thesis
      using Suc.prems(2) map_insert_keeps [of obj m1] by (simp add: o map_insert_sorted)
  qed
qed

text \<open>
  Claim C3 (duplicate keys): the code does not keep to it where \<^verbatim>\<open>map::insert\<close> leaves a
  rejected pair as it is (libstdc++ from version 12 on). The loop variable \<^verbatim>\<open>m\<close> is
  declared once for the whole loop (line 100); after a rejected insertion it still
  holds the duplicate, and the string parser appends the key of the next member to
  the key that \<^verbatim>\<open>m\<close> holds (\<^verbatim>\<open>push_back\<close>, line 73, on a string that is not
  cleared). So in \<^verbatim>\<open>{"x":1,"x":2,"x":3}\<close> the third member is read with the key
  \<^verbatim>\<open>xx\<close> and inserted, where the claim has it dropped; and in
  \<^verbatim>\<open>{"x":1,"x":2,"y":3,"y":4}\<close> the member \<^verbatim>\<open>"y":3\<close> is read with the key \<^verbatim>\<open>xy\<close>, so
  that \<^verbatim>\<open>y\<close> maps to \<open>4\<close>, the value of its second occurrence, where the claim has
  the first value retained. Where \<^verbatim>\<open>map::insert\<close> moves from a rejected pair, the same
  texts are read as the claim says, and \<^verbatim>\<open>{"x":1,"x":2}\<close> is read as \<^verbatim>\<open>x\<close> to \<open>1\<close> with
  both.
\<close>

theorem duplicate_key_residue:
  "read_value (dec_lib False) ''{\"x\":1,\"x\":2,\"x\":3}'' =
     Inr (\<lparr>consumed = rev ''{\"x\":1,\"x\":2,\"x\":3}'', pending = [], eofbit = False,
            failbit = False, badbit = False, skipws = True\<rparr>,
          Object [(''x'', Number 1), (''xx'', Number 3)])
   \<and> read_value (dec_lib False) ''{\"x\":1,\"x\":2,\"y\":3,\"y\":4}'' =
     Inr (\<lparr>consumed = rev ''{\"x\":1,\"x\":2,\"y\":3,\"y\":4}'', pending = [], eofbit = False,
            failbit = False, badbit = False, skipws = True\<rparr>,
          Object [(''x'', Number 1), (''xy'', Number 3), (''y'', Number 4)])
   \<and> read_value (dec_lib True) ''{\"x\":1,\"x\":2,\"x\":3}'' =
     Inr (\<lparr>consumed = rev ''{\"x\":1,\"x\":2,\"x\":3}'', pending = [], eofbit = False,
            failbit = False, badbit = False, skipws = True\<rparr>,
          Object [(''x'', Number 1)])
   \<and> read_value (dec_lib True) ''{\"x\":1,\"x\":2,\"y\":3,\"y\":4}'' =
     Inr (\<lparr>consumed = rev ''{\"x\":1,\"x\":2,\"y\":3,\"y\":4}'', pending = [], eofbit = False,
            failbit = False, badbit = False, skipws = True\<rparr>,
          Object [(''x'', Number 1), (''y'', Number 3)])
   \<and> read_value (dec_lib False) ''{\"x\":1,\"x\":2}'' =
     Inr (\<lparr>consumed = rev ''{\"x\":1,\"x\":2}'', pending = [], eofbit = False,
            failbit = False, badbit = False, skipws = True\<rparr>,
          Object [(''x'', Number 1)])
   \<and> read_value (dec_lib True) ''{\"x\":1,\"x\":2}'' =
     Inr (\<lparr>consumed = rev ''{\"x\":1,\"x\":2}'', pending = [], eofbit = False,
            failbit = False, badbit = False, skipws = True\<rparr>,
          Object [(''x'', Number 1)])"
  by code_simp

text \<open>
  Claim C4 (key order): whatever the order of the members in the text, the object a
  parser returns lists its keys in strictly increasing lexicographic order, and so
  does every object nested in the value; the text written for an object has its
  members in the order of that list.
\<close>

theorem parsed_keys_sorted:
  "(parse_value L k s val = Inr (s', v) \<and> wf_value val \<longrightarrow> wf_value v)
   \<and> (parse_object (parse_value L k) moves j s obj = Inr (s', obj') \<and> wf_value (Object obj) \<longrightarrow>
        sorted_wrt (<) (map fst obj') \<and> wf_value (Object obj'))
   \<and> serialize L (Object members) =
       Inr ([CHR ''{'', CHR 0x0A]
         @ commas (map (\<lambda>(key, val). spaces 2 @ quoted key @ '': '' @ layout L 2 val) members)
         @ [CHR 0x0A, CHR ''}''])"
proof -
  have pv: "\<forall>s val s' v. parse_value L k s val = Inr (s', v) \<longrightarrow> wf_value val \<longrightarrow> wf_value v"
    using parse_value_wf by blast
  have "serialize L (Object members) =
       Inr ([CHR ''{'', CHR 0x0A]
         @ commas (map (\<lambda>(key, val). spaces 2 @ quoted key @ '': '' @ layout L 2 val) members)
         @ [CHR 0x0A, CHR ''}''])"
    using write_value_layout [of new_ostream L "Object members"]
    by (simp add: serialize_def new_ostream_def put_def spaces_def numeral_2_eq_2
        del: write_value.simps)
  then show ?thesis
    using parse_value_wf [of L k s val s' v] parse_object_wf [OF pv, of moves j s obj s' obj']
    by (auto simp: sorted_keys_def)
qed

theorem parsed_keys_sorted_witness:
  "parse_value (dec_lib False) 14 (open_stream ''{\"b\":1,\"a\":2}'') (Object []) =
     Inr (\<lparr>consumed = rev ''{\"b\":1,\"a\":2}'', pending = [], eofbit = False,
            failbit = False, badbit = False, skipws = True\<rparr>,
          Object [(''a'', Number 2), (''b'', Number 1)])
   \<and> wf_value (Object ([] :: nat object))
   \<and> wf_value (Object [(''a'', Number (2::nat)), (''b'', Number 1)])
   \<and> parse_object (parse_value (dec_lib False) 13) False 13
        (open_stream ''{\"b\":1,\"a\":2}'') [] =
     Inr (\<lparr>consumed = rev ''{\"b\":1,\"a\":2}'', pending = [], eofbit = False,
            failbit = False, badbit = False, skipws = True\<rparr>,
          [(''a'', Number 2), (''b'', Number 1)])
   \<and> sorted_wrt (<) (map fst [(''a'', Number (2::nat)), (''b'', Number 1)])"
proof -
  have e: "parse_value (dec_lib False) 14 (open_stream ''{\"b\":1,\"a\":2}'') (Object []) =
     Inr (\<lparr>consumed = rev ''{\"b\":1,\"a\":2}'', pending = [], eofbit = False,
            failbit = False, badbit = False, skipws = True\<rparr>,
          Object [(''a'', Number 2), (''b'', Number 1)])"
    by code_simp
  have o: "parse_object (parse_value (dec_lib False) 13) False 13
        (open_stream ''{\"b\":1,\"a\":2}'') [] =
     Inr (\<lparr>consumed = rev ''{\"b\":1,\"a\":2}'', pending = [], eofbit = False,
            failbit = False, badbit = False, skipws = True\<rparr>,
          [(''a'', Number 2), (''b'', Number 1)])"
    by code_simp
  have w: "wf_value (Object ([] :: nat object))"
    by (simp add: sorted_keys_def)
  show ?thesis
    using parsed_keys_sorted
      [of "dec_lib False" 14 "open_stream ''{\"b\":1,\"a\":2}''" "Object []" _
        "Object [(''a'', Number 2), (''b'', Number 1)]"]
      parsed_keys_sorted
      [where L = "dec_lib False" and k = 13 and s = "open_stream ''{\"b\":1,\"a\":2}''"
        and moves = False and j = 13 and obj = "[]"
        and obj' = "[(''a'', Number 2), (''b'', Number 1)]"] e o w
    by blast
qed

section \<open>Reading back what the writers wrote\<close>

lemma clear_good: "good s \<Longrightarrow> clear s = s"
  by (simp add: clear_def good_def)

lemma clear_failbit_good: "good s \<Longrightarrow> clear (s\<lparr>failbit := True\<rparr>) = s"
  by (simp add: clear_def good_def)

lemma follow_cases:
  assumes "follow rest"
  obtains (eof) "rest = []" | (newline) r where "rest = CHR 0x0A # r"
  | (comma) r where "rest = CHR '','' # CHR 0x0A # r"
  using assms by (cases rest rule: follow.cases) auto

lemma sentry_nonspace:
  assumes "good s" "pending s = c # r" "\<not> isspace c"
  shows "sentry False s = (s, True)"
  using assms by (simp add: sentry_def Let_def)

lemma get_word_token:
  assumes "good s" "pending s = w @ rest" "w \<noteq> []" "\<forall>x\<in>set w. \<not> isspace x"
    "rest = [] \<or> isspace (hd rest)"
  shows "get_word s =
    (if rest = [] then (advance (length w) s)\<lparr>eofbit := True\<rparr> else advance (length w) s, w)"
proof -
  obtain c r where w: "w = c # r" using assms(3) by (cases w) auto
  have s: "sentry False s = (s, True)"
    using assms w by (intro sentry_nonspace [where c = c and r = "r @ rest"]) auto
  have t2: "takeWhile (\<lambda>c. \<not> isspace c) rest = []"
    using assms(5) by (cases rest) auto
  show ?thesis
    using assms(2,3,4) by (simp add: get_word_def s t2 Let_def)
qed

lemma parse_literal_follow:
  assumes "good s" "pending s = lit @ rest" "lit \<noteq> []" "\<forall>x\<in>set lit. \<not> isspace x"
    "last lit \<noteq> CHR '',''" "follow rest"
  shows "parse_literal lit s =
    Inr (if rest = [] then (advance (length lit) s)\<lparr>eofbit := True\<rparr> else advance (length lit) s)"
  using assms(6)
proof (cases rule: follow_cases)
  case eof
  have "get_word s = ((advance (length lit) s)\<lparr>eofbit := True\<rparr>, lit)"
    using get_word_token [of s lit rest] assms eof by simp
  then show ?thesis
    using assms eof by (simp add: parse_literal_def)
next
  case (newline r)
  have "get_word s = (advance (length lit) s, lit)"
    using get_word_token [of s lit rest] assms newline by (simp add: isspace_def)
  then show ?thesis
    using assms newline by (simp add: parse_literal_def)
next
  case (comma r)
  have p: "pending s = (lit @ [CHR '','']) @ CHR 0x0A # r"
    using assms(2) comma by simp
  have "get_word s = (advance (length (lit @ [CHR '',''])) s, lit @ [CHR '',''])"
    using get_word_token [of s "lit @ [CHR '','']" "CHR 0x0A # r"] assms(1,4) p
    by (simp add: isspace_def)
  moreover have "unget (advance (Suc (length lit)) s) = advance (length lit) s"
    using unget_advance [of s lit "CHR '',''" "CHR 0x0A # r"] assms(1,2) comma by simp
  ultimately show ?thesis
    using comma by (simp add: parse_literal_def)
qed

lemma get_double_exact:
  assumes "good s" "pending s = num_put L x @ rest" "number_exact L x" "follow rest"
  shows "get_double L s z =
    (if rest = [] then (advance (length (num_put L x)) s)\<lparr>eofbit := True\<rparr>
     else advance (length (num_put L x)) s, x)"
proof -
  obtain c r where w: "num_put L x = c # r"
    using assms(3) by (cases "num_put L x") (auto simp: number_exact_def)
  have "isdigit c \<or> c = CHR ''-''"
    using assms(3) w by (simp add: number_exact_def)
  then have c: "\<not> isspace c"
    by (auto simp: isdigit_def isspace_def)
  have s: "sentry False s = (s, True)"
    using assms w c by (intro sentry_nonspace [where c = c and r = "r @ rest"]) auto
  have g: "num_get L (num_put L x @ rest) = (length (num_put L x), Some x)"
    using assms by (simp add: number_exact_def)
  show ?thesis
    using assms(2) g by (simp add: get_double_def s Let_def)
qed

lemma parse_value_closer:
  assumes "good s" "skipws s" "pending s = ws @ c # rest" "\<forall>x\<in>set ws. isspace x"
    "c = CHR '']'' \<or> c = CHR ''}''"
  shows "parse_value L (Suc k) s val = Inr ((advance (length ws) s)\<lparr>failbit := True\<rparr>, val)"
proof -
  have c: "\<not> isspace c" using assms(5) by (auto simp: isspace_def)
  have g: "get_char s = (advance (Suc (length ws)) s, Some c)"
    using get_char_skip [OF assms(1,3,4) c] assms(2) by simp
  have u: "unget (advance (Suc (length ws)) s) = advance (length ws) s"
    using unget_advance [OF assms(1,3)] .
  show ?thesis
    using assms(5) by (auto simp: g u isdigit_def)
qed

lemma follow_intros [simp]: "follow (CHR 0x0A # r)" "follow (CHR '','' # CHR 0x0A # r)"
  by (cases r; simp)+

lemma spaces_isspace: "\<forall>c\<in>set (spaces m). isspace c"
  by (simp add: spaces_def isspace_def)

lemma length_spaces [simp]: "length (spaces m) = m"
  by (simp add: spaces_def)

lemma fail_advance [simp]: "fail (advance k s) = fail s"
  by (simp add: fail_def)

lemma good_not_fail: "good s \<Longrightarrow> \<not> fail s"
  by (simp add: good_def fail_def)

lemma map_insert_append:
  "sorted_keys (acc @ [m]) \<Longrightarrow> map_insert m acc = (acc @ [m], True)"
proof (induction acc)
  case Nil
  show ?case by simp
next
  case (Cons x acc)
  have "fst x < fst m" "sorted_keys (acc @ [m])"
    using Cons.prems by (simp_all add: sorted_keys_def)
  then show ?case using Cons.IH by (auto dest: less_asym)
qed

lemma array_loop_layout:
  assumes elem: "\<forall>x\<in>set xs. \<forall>s val ws rest. good s \<longrightarrow> skipws s \<longrightarrow>
      pending s = ws @ f x @ rest \<longrightarrow> (\<forall>c\<in>set ws. isspace c) \<longrightarrow> follow rest \<longrightarrow> rest \<noteq> [] \<longrightarrow>
      pv s val = Inr (advance (length ws + length (f x)) s, x)"
  shows "xs \<noteq> [] \<Longrightarrow> good s \<Longrightarrow> skipws s \<Longrightarrow>
    pending s = w0 @ commas (map (\<lambda>x. spaces m @ f x) xs) @ CHR 0x0A # ws' @ c # rest \<Longrightarrow>
    \<forall>c\<in>set w0. isspace c \<Longrightarrow> \<forall>c\<in>set ws'. isspace c \<Longrightarrow> \<not> isspace c \<Longrightarrow> c \<noteq> CHR '','' \<Longrightarrow>
    length xs \<le> k \<Longrightarrow>
    array_loop pv k s val ar =
      Inr (advance (length w0 + length (commas (map (\<lambda>x. spaces m @ f x) xs))
             + Suc (length ws')) s, ar @ xs)"
  using elem
proof (induction xs arbitrary: s val ar k w0)
  case Nil
  then show ?case by simp
next
  case (Cons x xs)
  obtain k' where k: "k = Suc k'" "length xs \<le> k'"
    using Cons.prems(9) by (cases k) auto
  let ?T = "(if xs = [] then [] else [CHR '','', CHR 0x0A] @ commas (map (\<lambda>x. spaces m @ f x) xs))
      @ CHR 0x0A # ws' @ c # rest"
  have p: "pending s = (w0 @ spaces m) @ f x @ ?T"
    using Cons.prems(4) by (simp add: commas_Cons)
  have T: "follow ?T" "?T \<noteq> []" by simp_all
  have w: "\<forall>c\<in>set (w0 @ spaces m). isspace c"
    using Cons.prems(5) spaces_isspace by auto
  define s1 where "s1 = advance (length (w0 @ spaces m) + length (f x)) s"
  have pv: "pv s val = Inr (s1, x)"
    unfolding s1_def using Cons.prems(10) Cons.prems(2,3) p w T by (simp del: append_assoc)
  have s1: "good s1" "skipws s1" "\<not> fail s1" "pending s1 = ?T"
    unfolding s1_def using Cons.prems(2,3) p by (simp_all add: good_not_fail)
  show ?case
  proof (cases "xs = []")
    case True
    have p1: "pending s1 = (CHR 0x0A # ws') @ c # rest"
      using s1(4) True by simp
    have ws: "\<forall>c\<in>set (CHR 0x0A # ws'). isspace c"
      using Cons.prems(6) by (simp add: isspace_def)
    have g: "get_char s1 = (advance (Suc (Suc (length ws'))) s1, Some c)"
      using get_char_skip [OF s1(1) p1 ws Cons.prems(7)] s1(2) by simp
    have u: "unget (advance (Suc (Suc (length ws'))) s1) = advance (Suc (length ws')) s1"
      using unget_advance [OF s1(1) p1] by simp
    have "array_loop pv k s val ar = Inr (advance (Suc (length ws')) s1, ar @ [x])"
      using Cons.prems(8) s1(3) by (simp add: k pv g u)
    then show ?thesis
      using True by (simp add: s1_def add.assoc)
  next
    case False
    have p1: "pending s1 = [] @ CHR '','' # (CHR 0x0A # commas (map (\<lambda>x. spaces m @ f x) xs)
        @ CHR 0x0A # ws' @ c # rest)"
      using s1(4) False by simp
    have g: "get_char s1 = (advance (Suc 0) s1, Some (CHR '',''))"
      using get_char_skip [OF s1(1) p1] s1(2) by (simp add: isspace_def)
    define s2 where "s2 = advance (Suc 0) s1"
    have "array_loop pv k' s2 (moved_from x) (ar @ [x]) =
      Inr (advance (length [CHR 0x0A] + length (commas (map (\<lambda>x. spaces m @ f x) xs))
             + Suc (length ws')) s2, (ar @ [x]) @ xs)"
    proof (rule Cons.IH [OF False])
      show "pending s2 = [CHR 0x0A] @ commas (map (\<lambda>x. spaces m @ f x) xs)
          @ CHR 0x0A # ws' @ c # rest"
        using p1 by (simp add: s2_def)
      show "\<forall>x\<in>set xs. \<forall>s val ws rest. good s \<longrightarrow> skipws s \<longrightarrow>
        pending s = ws @ f x @ rest \<longrightarrow> (\<forall>c\<in>set ws. isspace c) \<longrightarrow> follow rest \<longrightarrow> rest \<noteq> [] \<longrightarrow>
        pv s val = Inr (advance (length ws + length (f x)) s, x)"
        using Cons.prems(10) by simp
    qed (use s1 Cons.prems k in \<open>simp_all add: isspace_def s2_def\<close>)
    moreover have "array_loop pv k s val ar = array_loop pv k' s2 (moved_from x) (ar @ [x])"
      using s1(3) by (simp add: k pv g s2_def)
    ultimately show ?thesis
      using False by (simp add: s1_def s2_def commas_Cons add.assoc)
  qed
qed

lemma parse_member_layout:
  assumes pvv: "\<forall>s val ws rest. good s \<longrightarrow> skipws s \<longrightarrow>
      pending s = ws @ f v @ rest \<longrightarrow> (\<forall>c\<in>set ws. isspace c) \<longrightarrow> follow rest \<longrightarrow> rest \<noteq> [] \<longrightarrow>
      pv s val = Inr (advance (length ws + length (f v)) s, v)"
    and s: "good s" "skipws s" "pending s = ws @ quoted key @ '': '' @ f v @ rest"
      "\<forall>c\<in>set ws. isspace c" "follow rest" "rest \<noteq> []"
  shows "parse_member pv s ([], val0) =
    Inr (advance (length ws + length (quoted key) + 2 + length (f v)) s, (key, v))"
proof -
  let ?t = "concat (map escape_seq key) @ CHR 0x22 # '': '' @ f v @ rest"
  have p: "pending s = ws @ CHR 0x22 # ?t"
    using s(3) by (simp add: quoted_def)
  have g: "get_char s = (advance (Suc (length ws)) s, Some (CHR 0x22))"
    using get_char_skip [OF s(1) p s(4)] s(2) by (simp add: isspace_def)
  define sa where "sa = advance (length ws) s"
  have u: "unget (advance (Suc (length ws)) s) = sa"
    unfolding sa_def using unget_advance [OF s(1) p] .
  have sa: "good sa" "skipws sa" "pending sa = [] @ quoted key @ ('': '' @ f v @ rest)"
    unfolding sa_def using s(1,2,3) by simp_all
  define sb where "sb = advance (length (quoted key)) sa"
  have ps: "parse_string sa [] = Inr (sb, key)"
    unfolding sb_def using parse_string_quoted [OF sa(1,2,3), of "[]"] by simp
  have sb: "good sb" "skipws sb" "pending sb = [] @ CHR '':'' # ('' '' @ f v @ rest)"
    unfolding sb_def using sa by simp_all
  define sc where "sc = advance (Suc 0) sb"
  have r: "read_one_character sb (CHR '':'') = Inr sc"
    unfolding sc_def using read_one_character_skip [OF sb(1,3)] by (simp add: isspace_def)
  have sc: "good sc" "skipws sc" "pending sc = '' '' @ f v @ rest"
    unfolding sc_def using sb by simp_all
  have v: "pv sc val0 = Inr (advance (length '' '' + length (f v)) sc, v)"
    using pvv sc s(5,6) by (simp add: isspace_def del: append_Cons)
  have "parse_member pv s ([], val0) = Inr (advance (length '' '' + length (f v)) sc, (key, v))"
    by (simp add: parse_member_def g u ps r v)
  then show ?thesis
    by (simp add: sa_def sb_def sc_def add.assoc)
qed

lemma sorted_keys_append: "sorted_keys (xs @ ys) \<Longrightarrow> sorted_keys xs"
  by (simp add: sorted_keys_def sorted_wrt_append)

lemma object_loop_layout:
  assumes elem: "\<forall>(key, v)\<in>set xs. \<forall>s val ws rest. good s \<longrightarrow> skipws s \<longrightarrow>
      pending s = ws @ f v @ rest \<longrightarrow> (\<forall>c\<in>set ws. isspace c) \<longrightarrow> follow rest \<longrightarrow> rest \<noteq> [] \<longrightarrow>
      pv s val = Inr (advance (length ws + length (f v)) s, v)"
  shows "xs \<noteq> [] \<Longrightarrow> good s \<Longrightarrow> skipws s \<Longrightarrow>
    pending s = w0 @ commas (map (\<lambda>(key, val). spaces m @ quoted key @ '': '' @ f val) xs)
      @ CHR 0x0A # ws' @ c # rest \<Longrightarrow>
    \<forall>c\<in>set w0. isspace c \<Longrightarrow> \<forall>c\<in>set ws'. isspace c \<Longrightarrow> \<not> isspace c \<Longrightarrow> c \<noteq> CHR '','' \<Longrightarrow>
    length xs \<le> k \<Longrightarrow> sorted_keys (acc @ xs) \<Longrightarrow>
    object_loop pv moves k s ([], val0) acc =
      Inr (advance (length w0
             + length (commas (map (\<lambda>(key, val). spaces m @ quoted key @ '': '' @ f val) xs))
             + Suc (length ws')) s, acc @ xs)"
  using elem
proof (induction xs arbitrary: s val0 acc k w0)
  case Nil
  then show ?case by simp
next
  case (Cons x xs)
  obtain key v where x: "x = (key, v)" by (cases x)
  obtain k' where k: "k = Suc k'" "length xs \<le> k'"
    using Cons.prems(9) by (cases k) auto
  let ?g = "\<lambda>(key, val). spaces m @ quoted key @ '': '' @ f val"
  let ?T = "(if xs = [] then [] else [CHR '','', CHR 0x0A] @ commas (map ?g xs))
      @ CHR 0x0A # ws' @ c # rest"
  have p: "pending s = (w0 @ spaces m) @ quoted key @ '': '' @ f v @ ?T"
    using Cons.prems(4) by (simp add: commas_Cons x)
  have T: "follow ?T" "?T \<noteq> []" by simp_all
  have w: "\<forall>c\<in>set (w0 @ spaces m). isspace c"
    using Cons.prems(5) spaces_isspace by auto
  have pvv: "\<forall>s val ws rest. good s \<longrightarrow> skipws s \<longrightarrow>
      pending s = ws @ f v @ rest \<longrightarrow> (\<forall>c\<in>set ws. isspace c) \<longrightarrow> follow rest \<longrightarrow> rest \<noteq> [] \<longrightarrow>
      pv s val = Inr (advance (length ws + length (f v)) s, v)"
    using Cons.prems(11) by (simp add: x)
  define s1 where
    "s1 = advance (length (w0 @ spaces m) + length (quoted key) + 2 + length (f v)) s"
  have pm: "parse_member pv s ([], val0) = Inr (s1, (key, v))"
    unfolding s1_def
    by (rule parse_member_layout [of f v pv s "w0 @ spaces m" key ?T val0,
          OF pvv Cons.prems(2,3) p w T])
  have s1: "good s1" "skipws s1" "\<not> fail s1" "pending s1 = ?T"
    unfolding s1_def using Cons.prems(2,3) p by (simp_all add: good_not_fail)
  have "sorted_keys (acc @ [(key, v)])"
    using Cons.prems(10) sorted_keys_append [of "acc @ [(key, v)]" xs] by (simp add: x)
  then have im: "insert_move moves (key, v) acc = (acc @ [(key, v)], ([], moved_from v))"
    by (simp add: insert_move_def map_insert_append)
  show ?case
  proof (cases "xs = []")
    case True
    have p1: "pending s1 = (CHR 0x0A # ws') @ c # rest"
      using s1(4) True by simp
    have ws: "\<forall>c\<in>set (CHR 0x0A # ws'). isspace c"
      using Cons.prems(6) by (simp add: isspace_def)
    have g: "get_char s1 = (advance (Suc (Suc (length ws'))) s1, Some c)"
      using get_char_skip [OF s1(1) p1 ws Cons.prems(7)] s1(2) by simp
    have u: "unget (advance (Suc (Suc (length ws'))) s1) = advance (Suc (length ws')) s1"
      using unget_advance [OF s1(1) p1] by simp
    have "object_loop pv moves k s ([], val0) acc =
        Inr (advance (Suc (length ws')) s1, acc @ [(key, v)])"
      using Cons.prems(8) s1(3) by (simp add: k pm im g u)
    then show ?thesis
      using True by (simp add: s1_def x add.assoc)
  next
    case False
    have p1: "pending s1 = [] @ CHR '','' # (CHR 0x0A # commas (map ?g xs)
        @ CHR 0x0A # ws' @ c # rest)"
      using s1(4) False by simp
    have g: "get_char s1 = (advance (Suc 0) s1, Some (CHR '',''))"
      using get_char_skip [OF s1(1) p1] s1(2) by (simp add: isspace_def)
    define s2 where "s2 = advance (Suc 0) s1"
    have "object_loop pv moves k' s2 ([], moved_from v) (acc @ [(key, v)]) =
      Inr (advance (length [CHR 0x0A] + length (commas (map ?g xs))
             + Suc (length ws')) s2, (acc @ [(key, v)]) @ xs)"
    proof (rule Cons.IH [OF False])
      show "pending s2 = [CHR 0x0A] @ commas (map ?g xs) @ CHR 0x0A # ws' @ c # rest"
        using p1 by (simp add: s2_def)
      show "\<forall>(key, v)\<in>set xs. \<forall>s val ws rest. good s \<longrightarrow> skipws s \<longrightarrow>
        pending s = ws @ f v @ rest \<longrightarrow> (\<forall>c\<in>set ws. isspace c) \<longrightarrow> follow rest \<longrightarrow> rest \<noteq> [] \<longrightarrow>
        pv s val = Inr (advance (length ws + length (f v)) s, v)"
        using Cons.prems(11) by simp
      show "sorted_keys ((acc @ [(key, v)]) @ xs)"
        using Cons.prems(10) by (simp add: x)
    qed (use s1 Cons.prems k in \<open>simp_all add: isspace_def s2_def\<close>)
    moreover have "object_loop pv moves k s ([], val0) acc =
        object_loop pv moves k' s2 ([], moved_from v) (acc @ [(key, v)])"
      using s1(3) by (simp add: k pm im g s2_def)
    ultimately show ?thesis
      using False by (simp add: s1_def s2_def commas_Cons x add.assoc)
  qed
qed

lemma length_commas_elem: "x \<in> set xs \<Longrightarrow> length x \<le> length (commas xs)"
  by (induction xs rule: commas.induct) auto

lemma length_commas_count: "\<forall>x\<in>set xs. x \<noteq> [] \<Longrightarrow> length xs \<le> length (commas xs)"
proof (induction xs rule: commas.induct)
  case (2 x)
  then show ?case by (cases x) simp_all
qed simp_all

lemma parse_value_peek:
  assumes "good s" "skipws s" "pending s = ws @ c # r" "\<forall>x\<in>set ws. isspace x" "\<not> isspace c"
  shows "get_char s = (advance (Suc (length ws)) s, Some c)"
    and "unget (advance (Suc (length ws)) s) = advance (length ws) s"
  using get_char_skip [OF assms(1,3,4,5)] assms(2) unget_advance [OF assms(1,3)] by simp_all

lemma parse_value_layout:
  "wf_value v \<Longrightarrow> numbers_exact L v \<Longrightarrow> length (layout L n v) < k \<Longrightarrow> good s \<Longrightarrow>
   skipws s \<Longrightarrow> pending s = ws @ layout L n v @ rest \<Longrightarrow> \<forall>c\<in>set ws. isspace c \<Longrightarrow>
   follow rest \<Longrightarrow>
     parse_value L k s val =
       Inr (if rest = [] \<and> atom v
            then (advance (length ws + length (layout L n v)) s)\<lparr>eofbit := True\<rparr>
            else advance (length ws + length (layout L n v)) s, v)"
proof (induction v arbitrary: k s val n ws rest)
  case (String str)
  obtain k' where k: "k = Suc k'" using String.prems(3) by (cases k) auto
  have p: "pending s = ws @ CHR 0x22 # (concat (map escape_seq str) @ CHR 0x22 # rest)"
    using String.prems(6) by (simp add: quoted_def)
  note g = parse_value_peek [OF String.prems(4,5) p String.prems(7)]
  define sa where "sa = advance (length ws) s"
  have sa: "good sa" "skipws sa" "pending sa = [] @ quoted str @ rest"
    unfolding sa_def using String.prems(4,5,6) by simp_all
  have "parse_string sa [] = Inr (advance (length (quoted str)) sa, str)"
    using parse_string_quoted [OF sa, of "[]"] by simp
  then have "parse_value L k s val = Inr (advance (length (quoted str)) sa, String str)"
    using g by (simp add: k isspace_def sa_def del: advance_advance)
  then show ?case by (simp add: sa_def)
next
  case (Number x)
  obtain k' where k: "k = Suc k'" using Number.prems(3) by (cases k) auto
  have ne: "number_exact L x" using Number.prems(2) by simp
  obtain c r where w: "num_put L x = c # r"
    using ne by (cases "num_put L x") (auto simp: number_exact_def)
  have c: "isdigit c \<or> c = CHR ''-''"
    using ne w by (simp add: number_exact_def)
  then have c': "\<not> isspace c" "c \<noteq> CHR ''{''" "c \<noteq> CHR ''[''" "c \<noteq> CHR 0x22"
    "c \<noteq> CHR ''t''" "c \<noteq> CHR ''f''" "c \<noteq> CHR ''n''"
    by (auto simp: isdigit_def isspace_def)
  have p: "pending s = ws @ c # (r @ rest)"
    using Number.prems(6) w by simp
  note g = parse_value_peek [OF Number.prems(4,5) p Number.prems(7) c'(1)]
  define sa where "sa = advance (length ws) s"
  have sa: "good sa" "pending sa = num_put L x @ rest"
    unfolding sa_def using Number.prems(4,6) by simp_all
  note d = get_double_exact [OF sa ne Number.prems(8), of "num_zero L"]
  have "parse_value L k s val =
    Inr (if rest = [] then (advance (length (num_put L x)) sa)\<lparr>eofbit := True\<rparr>
         else advance (length (num_put L x)) sa, Number x)"
    using g c c' d by (simp add: k sa_def del: advance_advance)
  then show ?case by (simp add: sa_def)
next
  case JTrue
  obtain k' where k: "k = Suc k'" using JTrue.prems(3) by (cases k) auto
  have p: "pending s = ws @ CHR ''t'' # (''rue'' @ rest)"
    using JTrue.prems(6) by simp
  note g = parse_value_peek [OF JTrue.prems(4,5) p JTrue.prems(7)]
  define sa where "sa = advance (length ws) s"
  have sa: "good sa" "pending sa = ''true'' @ rest"
    unfolding sa_def using JTrue.prems(4,6) by simp_all
  have "parse_true sa =
    Inr (if rest = [] then (advance (length ''true'') sa)\<lparr>eofbit := True\<rparr>
         else advance (length ''true'') sa)"
    unfolding parse_true_def
    by (rule parse_literal_follow [OF sa]) (use JTrue.prems(8) in \<open>simp_all add: isspace_def\<close>)
  then have "parse_value L k s val =
    Inr (if rest = [] then (advance (length ''true'') sa)\<lparr>eofbit := True\<rparr>
         else advance (length ''true'') sa, JTrue)"
    using g by (simp add: k isspace_def sa_def del: advance_advance)
  then show ?case by (simp add: sa_def)
next
  case JFalse
  obtain k' where k: "k = Suc k'" using JFalse.prems(3) by (cases k) auto
  have p: "pending s = ws @ CHR ''f'' # (''alse'' @ rest)"
    using JFalse.prems(6) by simp
  note g = parse_value_peek [OF JFalse.prems(4,5) p JFalse.prems(7)]
  define sa where "sa = advance (length ws) s"
  have sa: "good sa" "pending sa = ''false'' @ rest"
    unfolding sa_def using JFalse.prems(4,6) by simp_all
  have "parse_false sa =
    Inr (if rest = [] then (advance (length ''false'') sa)\<lparr>eofbit := True\<rparr>
         else advance (length ''false'') sa)"
    unfolding parse_false_def
    by (rule parse_literal_follow [OF sa]) (use JFalse.prems(8) in \<open>simp_all add: isspace_def\<close>)
  then have "parse_value L k s val =
    Inr (if rest = [] then (advance (length ''false'') sa)\<lparr>eofbit := True\<rparr>
         else advance (length ''false'') sa, JFalse)"
    using g by (simp add: k isspace_def sa_def del: advance_advance)
  then show ?case by (simp add: sa_def)
next
  case Null
  obtain k' where k: "k = Suc k'" using Null.prems(3) by (cases k) auto
  have p: "pending s = ws @ CHR ''n'' # (''ull'' @ rest)"
    using Null.prems(6) by simp
  note g = parse_value_peek [OF Null.prems(4,5) p Null.prems(7)]
  define sa where "sa = advance (length ws) s"
  have sa: "good sa" "pending sa = ''null'' @ rest"
    unfolding sa_def using Null.prems(4,6) by simp_all
  have "parse_null sa =
    Inr (if rest = [] then (advance (length ''null'') sa)\<lparr>eofbit := True\<rparr>
         else advance (length ''null'') sa)"
    unfolding parse_null_def
    by (rule parse_literal_follow [OF sa]) (use Null.prems(8) in \<open>simp_all add: isspace_def\<close>)
  then have "parse_value L k s val =
    Inr (if rest = [] then (advance (length ''null'') sa)\<lparr>eofbit := True\<rparr>
         else advance (length ''null'') sa, Null)"
    using g by (simp add: k isspace_def sa_def del: advance_advance)
  then show ?case by (simp add: sa_def)
next
  case (Array ar)
  obtain k' where k: "k = Suc k'" using Array.prems(3) by (cases k) auto
  let ?g = "\<lambda>el. spaces (n + 2) @ layout L (n + 2) el"
  let ?body = "commas (map ?g ar)"
  have len: "length ?body + n + 4 \<le> k'"
    using Array.prems(3) by (simp add: k)
  have p: "pending s = ws @ CHR ''['' # (CHR 0x0A # ?body @ CHR 0x0A # spaces n @ CHR '']'' # rest)"
    using Array.prems(6) by simp
  note g = parse_value_peek [OF Array.prems(4,5) p Array.prems(7)]
  define sa where "sa = advance (length ws) s"
  have sa: "good sa" "skipws sa"
    "pending sa = [] @ CHR ''['' # (CHR 0x0A # ?body @ CHR 0x0A # spaces n @ CHR '']'' # rest)"
    unfolding sa_def using Array.prems(4,5) p by simp_all
  define sb where "sb = advance (Suc 0) sa"
  have r1: "read_one_character sa (CHR ''['') = Inr sb"
    unfolding sb_def using read_one_character_skip [OF sa(1,3)] by (simp add: isspace_def)
  have sb: "good sb" "skipws sb"
    "pending sb = CHR 0x0A # ?body @ CHR 0x0A # spaces n @ CHR '']'' # rest"
    unfolding sb_def using sa by simp_all
  define sc where "sc = advance (Suc (length ?body) + Suc n) sb"
  have sc: "good sc" "skipws sc" "pending sc = [] @ CHR '']'' # rest"
    unfolding sc_def using sb by simp_all
  have loop: "\<exists>s2. array_loop (parse_value L k') k' sb (Object []) [] = Inr (s2, ar)
      \<and> clear s2 = sc"
  proof (cases "ar = []")
    case True
    obtain k'' where k': "k' = Suc k''" using len by (cases k') auto
    have pb: "pending sb = (CHR 0x0A # CHR 0x0A # spaces n) @ CHR '']'' # rest"
      using sb(3) True by simp
    have "parse_value L (Suc k'') sb (Object []) =
      Inr ((advance (length (CHR 0x0A # CHR 0x0A # spaces n)) sb)\<lparr>failbit := True\<rparr>, Object [])"
      by (rule parse_value_closer [OF sb(1,2) pb])
        (use spaces_isspace in \<open>auto simp: isspace_def\<close>)
    then have "array_loop (parse_value L k') k' sb (Object []) [] =
      Inr ((advance (Suc (Suc n)) sb)\<lparr>failbit := True\<rparr>, [])"
      by (simp add: k' fail_def)
    moreover have "clear ((advance (Suc (Suc n)) sb)\<lparr>failbit := True\<rparr>) = sc"
      using clear_failbit_good [of "advance (Suc (Suc n)) sb"] sb(1) True
      by (simp add: sc_def)
    ultimately show ?thesis using True by simp
  next
    case False
    have elem: "\<forall>x\<in>set ar. \<forall>s val ws rest. good s \<longrightarrow> skipws s \<longrightarrow>
      pending s = ws @ layout L (n + 2) x @ rest \<longrightarrow> (\<forall>c\<in>set ws. isspace c) \<longrightarrow> follow rest \<longrightarrow>
      rest \<noteq> [] \<longrightarrow>
      parse_value L k' s val = Inr (advance (length ws + length (layout L (n + 2) x)) s, x)"
    proof (intro ballI allI impI)
      fix x s val ws rest
      assume x: "x \<in> set ar" and s: "good s" "skipws s"
        "pending s = ws @ layout L (n + 2) x @ rest" "\<forall>c\<in>set ws. isspace c" "follow rest"
        "rest \<noteq> []"
      have "length (?g x) \<le> length ?body"
        using x by (intro length_commas_elem) simp
      then have l: "length (layout L (n + 2) x) < k'" using len by simp
      have "wf_value x" "numbers_exact L x"
        using Array.prems(1,2) x by auto
      from Array.IH [OF x this l s(1,2,3,4,5), of val] s(6)
      show "parse_value L k' s val = Inr (advance (length ws + length (layout L (n + 2) x)) s, x)"
        by simp
    qed
    have cnt: "length ar \<le> k'"
    proof -
      have "length (map ?g ar) \<le> length ?body"
        by (rule length_commas_count) (auto simp: spaces_def)
      then show ?thesis using len by simp
    qed
    have pb: "pending sb = [CHR 0x0A] @ commas (map ?g ar) @ CHR 0x0A # spaces n @ CHR '']'' # rest"
      using sb(3) by simp
    have "array_loop (parse_value L k') k' sb (Object []) [] =
      Inr (advance (length [CHR 0x0A] + length (commas (map ?g ar)) + Suc (length (spaces n))) sb,
           [] @ ar)"
      by (rule array_loop_layout [OF elem False sb(1,2) pb _ _ _ _ cnt])
        (use spaces_isspace in \<open>auto simp: isspace_def\<close>)
    then have "array_loop (parse_value L k') k' sb (Object []) [] = Inr (sc, ar)"
      by (simp add: sc_def)
    then show ?thesis using clear_good [OF sc(1)] by simp
  qed
  then obtain s2 where l: "array_loop (parse_value L k') k' sb (Object []) [] = Inr (s2, ar)"
    "clear s2 = sc" by blast
  have r2: "read_one_character sc (CHR '']'') = Inr (advance (Suc 0) sc)"
    using read_one_character_skip [OF sc(1,3)] by (simp add: isspace_def)
  have "parse_array (parse_value L k') k' sa [] = Inr (advance (Suc 0) sc, ar)"
    by (simp add: parse_array_def r1 l r2)
  then have "parse_value L k s val = Inr (advance (Suc 0) sc, Array ar)"
    using g by (simp add: k isspace_def sa_def del: advance_advance)
  then show ?case by (simp add: sa_def sb_def sc_def add.assoc)
next
  case (Object obj)
  obtain k' where k: "k = Suc k'" using Object.prems(3) by (cases k) auto
  let ?g = "\<lambda>(key, val). spaces (n + 2) @ quoted key @ '': '' @ layout L (n + 2) val"
  let ?body = "commas (map ?g obj)"
  have len: "length ?body + n + 4 \<le> k'"
    using Object.prems(3) by (simp add: k)
  have p: "pending s = ws @ CHR ''{'' # (CHR 0x0A # ?body @ CHR 0x0A # spaces n @ CHR ''}'' # rest)"
    using Object.prems(6) by simp
  note g = parse_value_peek [OF Object.prems(4,5) p Object.prems(7)]
  define sa where "sa = advance (length ws) s"
  have sa: "good sa" "skipws sa"
    "pending sa = [] @ CHR ''{'' # (CHR 0x0A # ?body @ CHR 0x0A # spaces n @ CHR ''}'' # rest)"
    unfolding sa_def using Object.prems(4,5) p by simp_all
  define sb where "sb = advance (Suc 0) sa"
  have r1: "read_one_character sa (CHR ''{'') = Inr sb"
    unfolding sb_def using read_one_character_skip [OF sa(1,3)] by (simp add: isspace_def)
  have sb: "good sb" "skipws sb"
    "pending sb = CHR 0x0A # ?body @ CHR 0x0A # spaces n @ CHR ''}'' # rest"
    unfolding sb_def using sa by simp_all
  define sc where "sc = advance (Suc (length ?body) + Suc n) sb"
  have sc: "good sc" "skipws sc" "pending sc = [] @ CHR ''}'' # rest"
    unfolding sc_def using sb by simp_all
  have loop: "\<exists>s2. object_loop (parse_value L k') (moves_rejected L) k' sb ([], Object []) []
      = Inr (s2, obj) \<and> clear s2 = sc"
  proof (cases "obj = []")
    case True
    obtain k'' where k': "k' = Suc k''" using len by (cases k') auto
    have pb: "pending sb = (CHR 0x0A # CHR 0x0A # spaces n) @ CHR ''}'' # rest"
      using sb(3) True by simp
    have w: "\<forall>c\<in>set (CHR 0x0A # CHR 0x0A # spaces n). isspace c"
      using spaces_isspace by (auto simp: isspace_def)
    have c: "\<not> isspace (CHR ''}'')" by (simp add: isspace_def)
    note gb = parse_value_peek [OF sb(1,2) pb w c]
    have "parse_member (parse_value L k') sb ([], Object []) =
      Inr ((advance (Suc (Suc n)) sb)\<lparr>failbit := True\<rparr>, ([], Object []))"
      using gb by (simp add: parse_member_def)
    then have "object_loop (parse_value L k') (moves_rejected L) k' sb ([], Object []) [] =
      Inr ((advance (Suc (Suc n)) sb)\<lparr>failbit := True\<rparr>, [])"
      by (simp add: k' fail_def)
    moreover have "clear ((advance (Suc (Suc n)) sb)\<lparr>failbit := True\<rparr>) = sc"
      using clear_failbit_good [of "advance (Suc (Suc n)) sb"] sb(1) True
      by (simp add: sc_def)
    ultimately show ?thesis using True by simp
  next
    case False
    have elem: "\<forall>(key, v)\<in>set obj. \<forall>s val ws rest. good s \<longrightarrow> skipws s \<longrightarrow>
      pending s = ws @ layout L (n + 2) v @ rest \<longrightarrow> (\<forall>c\<in>set ws. isspace c) \<longrightarrow> follow rest \<longrightarrow>
      rest \<noteq> [] \<longrightarrow>
      parse_value L k' s val = Inr (advance (length ws + length (layout L (n + 2) v)) s, v)"
    proof (intro ballI allI impI, clarify)
      fix key x s val ws rest
      assume x: "(key, x) \<in> set obj" and s: "good s" "skipws s"
        "pending s = ws @ layout L (n + 2) x @ rest" "\<forall>c\<in>set ws. isspace c" "follow rest"
        "rest \<noteq> []"
      have "length (?g (key, x)) \<le> length ?body"
        using x by (intro length_commas_elem) force
      then have l: "length (layout L (n + 2) x) < k'" using len by simp
      have w: "wf_value x" "numbers_exact L x"
        using Object.prems(1,2) x by auto
      have "x \<in> Basic_BNFs.snds (key, x)" by simp
      from Object.IH [OF x this w l s(1,2,3,4,5), of val] s(6)
      show "parse_value L k' s val = Inr (advance (length ws + length (layout L (n + 2) x)) s, x)"
        by simp
    qed
    have cnt: "length obj \<le> k'"
    proof -
      have "length (map ?g obj) \<le> length ?body"
        by (rule length_commas_count) (auto simp: spaces_def)
      then show ?thesis using len by simp
    qed
    have pb: "pending sb = [CHR 0x0A] @ commas (map ?g obj) @ CHR 0x0A # spaces n @ CHR ''}'' # rest"
      using sb(3) by simp
    have srt: "sorted_keys ([] @ obj)" using Object.prems(1) by simp
    have "object_loop (parse_value L k') (moves_rejected L) k' sb ([], Object []) [] =
      Inr (advance (length [CHR 0x0A] + length (commas (map ?g obj)) + Suc (length (spaces n))) sb,
           [] @ obj)"
      by (rule object_loop_layout [OF elem False sb(1,2) pb _ _ _ _ cnt srt])
        (use spaces_isspace in \<open>auto simp: isspace_def\<close>)
    then have "object_loop (parse_value L k') (moves_rejected L) k' sb ([], Object []) [] =
      Inr (sc, obj)"
      by (simp add: sc_def)
    then show ?thesis using clear_good [OF sc(1)] by simp
  qed
  then obtain s2 where l:
    "object_loop (parse_value L k') (moves_rejected L) k' sb ([], Object []) [] = Inr (s2, obj)"
    "clear s2 = sc" by blast
  have r2: "read_one_character sc (CHR ''}'') = Inr (advance (Suc 0) sc)"
    using read_one_character_skip [OF sc(1,3)] by (simp add: isspace_def)
  have "parse_object (parse_value L k') (moves_rejected L) k' sa [] = Inr (advance (Suc 0) sc, obj)"
    by (simp add: parse_object_def r1 l r2)
  then have "parse_value L k s val = Inr (advance (Suc 0) sc, Object obj)"
    using g by (simp add: k isspace_def sa_def del: advance_advance)
  then show ?case by (simp add: sa_def sb_def sc_def add.assoc)
qed

lemma serialize_layout: "serialize L v = Inr (layout L 0 v)"
  by (simp add: serialize_def write_value_layout new_ostream_def put_def)

lemma read_value_layout:
  assumes "wf_value v" "numbers_exact L v"
  shows "read_value L (layout L 0 v) =
    Inr (\<lparr>consumed = rev (layout L 0 v), pending = [], eofbit = atom v, failbit = False,
           badbit = False, skipws = True\<rparr>, v)"
proof -
  let ?s = "open_stream (layout L 0 v)"
  have "parse_value L (Suc (length (layout L 0 v))) ?s (Object []) =
     Inr (if [] = [] \<and> atom v
          then (advance (length ([] :: string) + length (layout L 0 v)) ?s)\<lparr>eofbit := True\<rparr>
          else advance (length ([] :: string) + length (layout L 0 v)) ?s, v)"
    using parse_value_layout
      [OF assms, of 0 "Suc (length (layout L 0 v))" ?s "[]" "[]" "Object []"]
    by (simp add: open_stream_def good_def)
  then show ?thesis
    by (simp add: read_value_def open_stream_def advance_def)
qed

lemma follow_no_digit: "follow rest \<Longrightarrow> takeWhile isdigit rest = []"
  by (cases rest rule: follow.cases) (auto simp: isdigit_def)

lemma dec_lib_exact_12: "number_exact (dec_lib b) 12"
  by (simp add: number_exact_def dec_lib_def dec_get_def isdigit_def follow_no_digit Let_def)

lemma dec_lib_exact_7: "number_exact (dec_lib b) 7"
  by (simp add: number_exact_def dec_lib_def dec_get_def isdigit_def follow_no_digit Let_def)

text \<open>
  Claim C1 (round trip): for every value tree \<open>v\<close> that the output grammar expresses
  exactly (its objects as \<^verbatim>\<open>std::map\<close> holds them, its numbers exact for the
  formatter and the scanner), reading the text that \<open>serialize\<close> writes for \<open>v\<close>
  returns \<open>v\<close>, with the whole text consumed and the stream not failed.
\<close>

theorem round_trip:
  "wf_value v \<Longrightarrow> numbers_exact L v \<Longrightarrow>
     (\<exists>txt. serialize L v = Inr txt
        \<and> read_value L txt =
            Inr (\<lparr>consumed = rev txt, pending = [], eofbit = atom v, failbit = False,
                   badbit = False, skipws = True\<rparr>, v))"
  by (simp add: serialize_layout read_value_layout)

theorem round_trip_witness:
  "wf_value (Object [(''a'', Array [JTrue, Number (12::nat), Null]), (''b'', String ''x/y'')])
   \<and> numbers_exact (dec_lib False)
        (Object [(''a'', Array [JTrue, Number 12, Null]), (''b'', String ''x/y'')])
   \<and> serialize (dec_lib False)
        (Object [(''a'', Array [JTrue, Number 12, Null]), (''b'', String ''x/y'')]) =
       Inr (''{\<newline>  \"a\": [\<newline>    true,\<newline>    12,\<newline>    null\<newline>  ],\<newline>  \"b\": \"x'' @ [CHR 0x5C] @ ''/y\"\<newline>}'')
   \<and> (\<exists>s. read_value (dec_lib False)
         (''{\<newline>  \"a\": [\<newline>    true,\<newline>    12,\<newline>    null\<newline>  ],\<newline>  \"b\": \"x'' @ [CHR 0x5C] @ ''/y\"\<newline>}'') =
       Inr (s, Object [(''a'', Array [JTrue, Number 12, Null]), (''b'', String ''x/y'')])
       \<and> \<not> fail s)"
proof -
  let ?v = "Object [(''a'', Array [JTrue, Number (12::nat), Null]), (''b'', String ''x/y'')]"
  have w: "wf_value ?v" by (simp add: sorted_keys_def)
  have n: "numbers_exact (dec_lib False) ?v" by (simp add: dec_lib_exact_12)
  have s: "serialize (dec_lib False) ?v =
      Inr (''{\<newline>  \"a\": [\<newline>    true,\<newline>    12,\<newline>    null\<newline>  ],\<newline>  \"b\": \"x'' @ [CHR 0x5C] @ ''/y\"\<newline>}'')"
    by code_simp
  show ?thesis
    using round_trip [OF w n] w n s by (auto simp: fail_def)
qed

text \<open>
  Claim C6 (idempotent re-serialization): for every such value \<open>v\<close>, serializing
  the value read from the text of \<open>v\<close> writes the same text again.
\<close>

theorem reserialize_same_bytes:
  "wf_value v \<Longrightarrow> numbers_exact L v \<Longrightarrow>
     (\<exists>txt s v'. serialize L v = Inr txt \<and> read_value L txt = Inr (s, v') \<and> \<not> fail s
        \<and> serialize L v' = Inr txt)"
  by (simp add: serialize_layout read_value_layout fail_def)

theorem reserialize_same_bytes_witness:
  "wf_value (Array [Object [], Number (7::nat), String ''q''])
   \<and> numbers_exact (dec_lib True) (Array [Object [], Number 7, String ''q''])
   \<and> (\<exists>s v'. read_value (dec_lib True) ''[\<newline>  {\<newline>\<newline>  },\<newline>  7,\<newline>  \"q\"\<newline>]'' = Inr (s, v')
        \<and> \<not> fail s
        \<and> serialize (dec_lib True) v' = Inr ''[\<newline>  {\<newline>\<newline>  },\<newline>  7,\<newline>  \"q\"\<newline>]'')"
proof -
  let ?v = "Array [Object [], Number (7::nat), String ''q'']"
  have w: "wf_value ?v" by (simp add: sorted_keys_def)
  have n: "numbers_exact (dec_lib True) ?v" by (simp add: dec_lib_exact_7)
  have s: "serialize (dec_lib True) ?v = Inr ''[\<newline>  {\<newline>\<newline>  },\<newline>  7,\<newline>  \"q\"\<newline>]''"
    by code_simp
  show ?thesis
    using reserialize_same_bytes [OF w n] w n s by auto
qed

section \<open>Every parse ends\<close>

text \<open>
  A parser ends when it returns, when an assertion fails or when it evaluates an
  indeterminate character; \<open>terminates\<close> tells these outcomes from the exhausted
  recursion bound of the model. No parser consumes less than nothing: the input not
  yet extracted never grows, and it shrinks with each iteration of a loop and with
  each level of nesting, so that a bound above the length of the input is enough.
\<close>

definition terminates :: "failure + 'a \<Rightarrow> bool" where
  "terminates r = (case r of Inl e \<Rightarrow> e = AssertionFailed \<or> e = Undefined | Inr x \<Rightarrow> True)"

lemma terminates_simps [simp]:
  "terminates (Inr x)" "terminates (Inl e) = (e = AssertionFailed \<or> e = Undefined)"
  by (simp_all add: terminates_def)

lemma terminates_case:
  "terminates r \<Longrightarrow> (\<And>x. r = Inr x \<Longrightarrow> terminates (f x)) \<Longrightarrow>
     terminates (case r of Inl e \<Rightarrow> Inl e | Inr x \<Rightarrow> f x)"
  by (cases r) simp_all

lemma sentry_pending: "length (pending (fst (sentry b s))) \<le> length (pending s)"
  by (simp add: sentry_def Let_def)

lemma get_char_pending_le: "get_char s = (s1, c) \<Longrightarrow> length (pending s1) \<le> length (pending s)"
  by (cases c) (auto simp: get_char_def sentry_def Let_def split: if_splits list.splits
      dest: get_char_pending)

lemma unget_pending: "length (pending (unget s)) \<le> Suc (length (pending s))"
  by (simp add: unget_def Let_def split: list.splits)

lemma peek_pending:
  "get_char s = (s1, Some c) \<Longrightarrow> length (pending (unget s1)) \<le> length (pending s)"
  using get_char_pending [of s s1 c] unget_pending [of s1] by simp

lemma read_one_character_pending:
  "read_one_character s ch = Inr s1 \<Longrightarrow> length (pending s1) < length (pending s)"
  by (auto simp: read_one_character_def split: prod.splits option.splits if_splits
      dest: get_char_pending)

lemma read_one_character_fuel: "terminates (read_one_character s ch)"
  by (simp add: read_one_character_def split: prod.splits option.splits)

lemma escaped_character_fuel: "terminates (escaped_character s)"
  by (simp add: escaped_character_def split: prod.splits option.splits)

lemma string_loop_pending:
  "string_loop s str = Inr (s', str') \<Longrightarrow> length (pending s') \<le> length (pending s)"
proof (induction s str rule: string_loop.induct)
  case (1 s str)
  obtain s1 c where gc: "get_char s = (s1, c)" by (cases "get_char s")
  note le = get_char_pending_le [OF gc]
  show ?case
  proof (cases c)
    case None
    then show ?thesis using "1.prems" gc le by (simp add: string_loop.simps [of s])
  next
    case (Some ch)
    show ?thesis
    proof (cases "ch = CHR 0x5C")
      case True
      from "1.prems" gc Some True obtain s2 c' where
        e: "escaped_character s1 = Inr (s2, c')" and
        r: "string_loop s2 (str @ [c']) = Inr (s', str')"
        by (cases "escaped_character s1") (auto simp: string_loop.simps [of s])
      have "length (pending s') \<le> length (pending s2)"
        using "1.IH"(1) [OF gc [symmetric] Some True e refl r] .
      then show ?thesis
        using escaped_character_pending [OF e] le by simp
    next
      case False
      show ?thesis
      proof (cases "ch = CHR 0x22")
        case True
        then show ?thesis
          using "1.prems" gc Some False le by (simp add: string_loop.simps [of s])
      next
        case nq: False
        then have r: "string_loop s1 (str @ [ch]) = Inr (s', str')"
          using "1.prems" gc Some False by (simp add: string_loop.simps [of s])
        have "length (pending s') \<le> length (pending s1)"
          using "1.IH"(2) [OF gc [symmetric] Some False nq r] .
        then show ?thesis using le by simp
      qed
    qed
  qed
qed

lemma string_loop_fuel: "terminates (string_loop s str)"
proof (induction s str rule: string_loop.induct)
  case (1 s str)
  obtain s1 c where gc: "get_char s = (s1, c)" by (cases "get_char s")
  show ?case
  proof (cases c)
    case None
    then show ?thesis using gc by (simp add: string_loop.simps [of s])
  next
    case (Some ch)
    show ?thesis
    proof (cases "ch = CHR 0x5C")
      case True
      show ?thesis
      proof (cases "escaped_character s1")
        case (Inl e)
        then show ?thesis
          using gc Some True escaped_character_fuel [of s1]
          by (simp add: string_loop.simps [of s])
      next
        case (Inr x)
        obtain s2 c' where x: "x = (s2, c')" by (cases x)
        show ?thesis
          using "1.IH"(1) [OF gc [symmetric] Some True Inr x [symmetric]] gc Some True Inr x
          by (simp add: string_loop.simps [of s])
      qed
    next
      case False
      show ?thesis
      proof (cases "ch = CHR 0x22")
        case True
        then show ?thesis using gc Some False by (simp add: string_loop.simps [of s])
      next
        case nq: False
        show ?thesis
          using "1.IH"(2) [OF gc [symmetric] Some False nq] gc Some False nq
          by (simp add: string_loop.simps [of s])
      qed
    qed
  qed
qed

lemma parse_string_pending:
  "parse_string s str = Inr (s', str') \<Longrightarrow> length (pending s') < length (pending s)"
proof -
  assume a: "parse_string s str = Inr (s', str')"
  then obtain s1 where r: "read_one_character s (CHR 0x22) = Inr s1"
    by (cases "read_one_character s (CHR 0x22)") (auto simp: parse_string_def)
  from a r obtain s2 where l: "string_loop (s1\<lparr>skipws := False\<rparr>) str = Inr (s2, str')"
    and s': "s' = s2\<lparr>skipws := True\<rparr>"
    by (cases "string_loop (s1\<lparr>skipws := False\<rparr>) str") (auto simp: parse_string_def)
  show ?thesis
    using read_one_character_pending [OF r] string_loop_pending [OF l] s' by simp
qed

lemma parse_string_fuel: "terminates (parse_string s str)"
  unfolding parse_string_def
  by (intro terminates_case read_one_character_fuel string_loop_fuel)
    (simp split: prod.splits)

lemma get_word_pending:
  "get_word s = (s1, w) \<Longrightarrow> length (pending s1) + length w \<le> length (pending s)"
proof -
  assume a: "get_word s = (s1, w)"
  obtain sa ok where sn: "sentry False s = (sa, ok)" by (cases "sentry False s")
  have le: "length (pending sa) \<le> length (pending s)"
    using sentry_pending [of False s] sn by simp
  show ?thesis
  proof (cases ok)
    case False
    then show ?thesis using a sn le by (simp add: get_word_def)
  next
    case True
    have w: "w = takeWhile (\<lambda>c. \<not> isspace c) (pending sa)"
      using a sn True by (auto simp: get_word_def Let_def)
    have "pending s1 = drop (length w) (pending sa)"
      using a sn True by (auto simp: get_word_def Let_def split: if_splits)
    moreover have "length w \<le> length (pending sa)"
      unfolding w by (rule length_takeWhile_le)
    ultimately show ?thesis using le by simp
  qed
qed

lemma get_word_unget:
  assumes "get_word s = (s1, w)" "w \<noteq> []"
  shows "length (pending (unget s1)) \<le> length (pending s)"
proof -
  have "length w \<ge> 1" using assms(2) by (cases w) auto
  then show ?thesis
    using get_word_pending [OF assms(1)] unget_pending [of s1] by simp
qed

lemma parse_literal_pending:
  "parse_literal e s = Inr s' \<Longrightarrow> length (pending s') \<le> length (pending s)"
proof -
  assume a: "parse_literal e s = Inr s'"
  obtain s1 w where g: "get_word s = (s1, w)" by (cases "get_word s")
  have w: "w \<noteq> []" using a g by (auto simp: parse_literal_def)
  have "s' = unget s1 \<or> s' = s1"
    using a g w by (auto simp: parse_literal_def split: if_splits)
  then show ?thesis
    using get_word_unget [OF g w] get_word_pending [OF g] by auto
qed

lemma parse_literal_fuel: "terminates (parse_literal e s)"
  by (simp add: parse_literal_def split: prod.splits)

lemma get_double_pending:
  "get_double L s x = (s', y) \<Longrightarrow> length (pending s') \<le> length (pending s)"
  by (auto simp: get_double_def sentry_def Let_def
      split: if_splits prod.splits option.splits)

lemma parse_member_pending:
  assumes mono: "\<forall>s val s' v. pv s val = Inr (s', v) \<longrightarrow> length (pending s') \<le> length (pending s)"
    and pm: "parse_member pv s m = Inr (s', m')"
  shows "length (pending s') \<le> length (pending s)"
  using pm
proof (cases rule: parse_member_cases)
  case (member s1 s3 key s4 val)
  have "length (pending s') \<le> length (pending s4)"
    using mono member(4) by blast
  then show ?thesis
    using peek_pending [OF member(1)] parse_string_pending [OF member(2)]
      read_one_character_pending [OF member(3)] by simp
next
  case (none s1 ch)
  then show ?thesis using peek_pending [OF none(1)] by simp
qed

lemma parse_member_fuel:
  assumes fu: "\<forall>s val. length (pending s) < j \<longrightarrow> terminates (pv s val)"
    and s: "length (pending s) \<le> j"
  shows "terminates (parse_member pv s m)"
proof -
  obtain s1 c where gc: "get_char s = (s1, c)" by (cases "get_char s")
  show ?thesis
  proof (cases c)
    case None
    then show ?thesis using gc by (simp add: parse_member_def)
  next
    case (Some ch)
    show ?thesis
    proof (cases "ch = CHR 0x22")
      case False
      then show ?thesis using gc Some by (simp add: parse_member_def)
    next
      case True
      show ?thesis
      proof (cases "parse_string (unget s1) (fst m)")
        case (Inl e)
        then show ?thesis
          using gc Some True parse_string_fuel [of "unget s1" "fst m"]
          by (simp add: parse_member_def)
      next
        case (Inr x)
        obtain s3 key where x: "x = (s3, key)" by (cases x)
        have l3: "length (pending s3) < j"
          using parse_string_pending [OF Inr [unfolded x]] peek_pending [OF gc [unfolded Some]] s
          by simp
        show ?thesis
        proof (cases "read_one_character s3 (CHR '':'')")
          case (Inl e)
          then show ?thesis
            using gc Some True \<open>parse_string (unget s1) (fst m) = Inr x\<close> x
              read_one_character_fuel [of s3 "CHR '':''"]
            by (simp add: parse_member_def)
        next
          case r: (Inr s4)
          have "length (pending s4) < j"
            using read_one_character_pending [OF r] l3 by simp
          then have "terminates (pv s4 (snd m))" using fu by blast
          then show ?thesis
            using gc Some True \<open>parse_string (unget s1) (fst m) = Inr x\<close> x r
            by (cases "pv s4 (snd m)") (auto simp: parse_member_def)
        qed
      qed
    qed
  qed
qed

lemma object_loop_pending:
  assumes mono: "\<forall>s val s' v. pv s val = Inr (s', v) \<longrightarrow> length (pending s') \<le> length (pending s)"
  shows "object_loop pv moves k s m obj = Inr (s', obj') \<Longrightarrow>
    length (pending s') \<le> length (pending s)"
proof (induction k arbitrary: s m obj)
  case 0
  then show ?case by simp
next
  case (Suc k)
  from Suc.prems show ?case
  proof (cases rule: object_loop_cases)
    case (stop m1)
    then show ?thesis using parse_member_pending [OF mono stop(1)] by simp
  next
    case (continue s1 m1 obj1 m2 s2)
    show ?thesis
      using parse_member_pending [OF mono continue(1)] get_char_pending [OF continue(4)]
        Suc.IH [OF continue(5)] by simp
  next
    case (last s1 m1 m2 s2 ch)
    show ?thesis
      using parse_member_pending [OF mono last(1)] peek_pending [OF last(4)] last(6) by simp
  qed
qed

lemma object_loop_fuel:
  assumes mono: "\<forall>s val s' v. pv s val = Inr (s', v) \<longrightarrow> length (pending s') \<le> length (pending s)"
    and fu: "\<forall>s val. length (pending s) < j \<longrightarrow> terminates (pv s val)"
  shows "length (pending s) < k \<Longrightarrow> length (pending s) \<le> j \<Longrightarrow>
    terminates (object_loop pv moves k s m obj)"
proof (induction k arbitrary: s m obj)
  case 0
  then show ?case by simp
next
  case (Suc k)
  show ?case
  proof (cases "parse_member pv s m")
    case (Inl e)
    then show ?thesis using parse_member_fuel [OF fu Suc.prems(2), of m] by simp
  next
    case (Inr x)
    obtain s1 m1 where x: "x = (s1, m1)" by (cases x)
    note pm = Inr [unfolded x]
    have l1: "length (pending s1) \<le> length (pending s)"
      using parse_member_pending [OF mono pm] .
    show ?thesis
    proof (cases "fail s1")
      case True
      then show ?thesis using pm by simp
    next
      case False
      obtain obj1 m2 where im: "insert_move moves m1 obj = (obj1, m2)"
        by (cases "insert_move moves m1 obj")
      obtain s2 c where gc: "get_char s1 = (s2, c)" by (cases "get_char s1")
      show ?thesis
      proof (cases c)
        case None
        then show ?thesis using pm False im gc by simp
      next
        case (Some ch)
        have "length (pending s2) < length (pending s1)"
          using get_char_pending [OF gc [unfolded Some]] .
        then have "terminates (object_loop pv moves k s2 m2 obj1)"
          using Suc.IH [of s2 m2 obj1] l1 Suc.prems by simp
        then show ?thesis using pm False im gc Some by simp
      qed
    qed
  qed
qed

lemma parse_object_pending:
  assumes mono: "\<forall>s val s' v. pv s val = Inr (s', v) \<longrightarrow> length (pending s') \<le> length (pending s)"
    and po: "parse_object pv moves k s obj = Inr (s', obj')"
  shows "length (pending s') < length (pending s)"
  using po
proof (cases rule: parse_object_cases)
  case (1 s1 s2)
  have "length (pending (clear s2)) = length (pending s2)" by (simp add: clear_def)
  then show ?thesis
    using read_one_character_pending [OF 1(1)] object_loop_pending [OF mono 1(2)]
      read_one_character_pending [OF 1(3)] by simp
qed

lemma parse_object_fuel:
  assumes mono: "\<forall>s val s' v. pv s val = Inr (s', v) \<longrightarrow> length (pending s') \<le> length (pending s)"
    and fu: "\<forall>s val. length (pending s) < k \<longrightarrow> terminates (pv s val)"
    and s: "length (pending s) \<le> k"
  shows "terminates (parse_object pv moves k s obj)"
proof (cases "read_one_character s (CHR ''{'')")
  case (Inl e)
  then show ?thesis
    using read_one_character_fuel [of s "CHR ''{''"] by (simp add: parse_object_def)
next
  case (Inr s1)
  have l1: "length (pending s1) < k"
    using read_one_character_pending [OF Inr] s by simp
  have lt: "terminates (object_loop pv moves k s1 ([], Object []) obj)"
    using object_loop_fuel [OF mono fu l1] l1 by simp
  show ?thesis
  proof (cases "object_loop pv moves k s1 ([], Object []) obj")
    case (Inl e)
    then show ?thesis using Inr lt by (simp add: parse_object_def)
  next
    case l: (Inr x)
    obtain s2 o2 where x: "x = (s2, o2)" by (cases x)
    show ?thesis
      using Inr l x read_one_character_fuel [of "clear s2" "CHR ''}''"]
      by (cases "read_one_character (clear s2) (CHR ''}'')") (simp_all add: parse_object_def)
  qed
qed

lemma array_loop_pending:
  assumes mono: "\<forall>s val s' v. pv s val = Inr (s', v) \<longrightarrow> length (pending s') \<le> length (pending s)"
  shows "array_loop pv k s val ar = Inr (s', ar') \<Longrightarrow>
    length (pending s') \<le> length (pending s)"
proof (induction k arbitrary: s val ar)
  case 0
  then show ?case by simp
next
  case (Suc k)
  from Suc.prems show ?case
  proof (cases rule: array_loop_cases)
    case (stop val1)
    then show ?thesis using mono by blast
  next
    case (continue s1 val1 s2)
    have "length (pending s1) \<le> length (pending s)" using mono continue(1) by blast
    then show ?thesis
      using get_char_pending [OF continue(3)] Suc.IH [OF continue(4)] by simp
  next
    case (last s1 val1 s2 ch)
    have "length (pending s1) \<le> length (pending s)" using mono last(1) by blast
    then show ?thesis
      using peek_pending [OF last(3)] last(5) by simp
  qed
qed

lemma array_loop_fuel:
  assumes mono: "\<forall>s val s' v. pv s val = Inr (s', v) \<longrightarrow> length (pending s') \<le> length (pending s)"
    and fu: "\<forall>s val. length (pending s) < j \<longrightarrow> terminates (pv s val)"
  shows "length (pending s) < k \<Longrightarrow> length (pending s) < j \<Longrightarrow>
    terminates (array_loop pv k s val ar)"
proof (induction k arbitrary: s val ar)
  case 0
  then show ?case by simp
next
  case (Suc k)
  show ?case
  proof (cases "pv s val")
    case (Inl e)
    have "terminates (pv s val)" using fu Suc.prems(2) by blast
    then show ?thesis using Inl by simp
  next
    case (Inr x)
    obtain s1 val1 where x: "x = (s1, val1)" by (cases x)
    note p = Inr [unfolded x]
    have l1: "length (pending s1) \<le> length (pending s)"
      using mono p by blast
    show ?thesis
    proof (cases "fail s1")
      case True
      then show ?thesis using p by simp
    next
      case False
      obtain s2 c where gc: "get_char s1 = (s2, c)" by (cases "get_char s1")
      show ?thesis
      proof (cases c)
        case None
        then show ?thesis using p False gc by simp
      next
        case (Some ch)
        have "length (pending s2) < length (pending s1)"
          using get_char_pending [OF gc [unfolded Some]] .
        then have "terminates (array_loop pv k s2 (moved_from val1) (ar @ [val1]))"
          using Suc.IH [of s2] l1 Suc.prems by simp
        then show ?thesis using p False gc Some by simp
      qed
    qed
  qed
qed

lemma parse_array_pending:
  assumes mono: "\<forall>s val s' v. pv s val = Inr (s', v) \<longrightarrow> length (pending s') \<le> length (pending s)"
    and pa: "parse_array pv k s ar = Inr (s', ar')"
  shows "length (pending s') < length (pending s)"
  using pa
proof (cases rule: parse_array_cases)
  case (1 s1 s2)
  have "length (pending (clear s2)) = length (pending s2)" by (simp add: clear_def)
  then show ?thesis
    using read_one_character_pending [OF 1(1)] array_loop_pending [OF mono 1(2)]
      read_one_character_pending [OF 1(3)] by simp
qed

lemma parse_array_fuel:
  assumes mono: "\<forall>s val s' v. pv s val = Inr (s', v) \<longrightarrow> length (pending s') \<le> length (pending s)"
    and fu: "\<forall>s val. length (pending s) < k \<longrightarrow> terminates (pv s val)"
    and s: "length (pending s) \<le> k"
  shows "terminates (parse_array pv k s ar)"
proof (cases "read_one_character s (CHR ''['')")
  case (Inl e)
  then show ?thesis
    using read_one_character_fuel [of s "CHR ''[''"] by (simp add: parse_array_def)
next
  case (Inr s1)
  have l1: "length (pending s1) < k"
    using read_one_character_pending [OF Inr] s by simp
  have lt: "terminates (array_loop pv k s1 (Object []) ar)"
    using array_loop_fuel [OF mono fu l1 l1] .
  show ?thesis
  proof (cases "array_loop pv k s1 (Object []) ar")
    case (Inl e)
    then show ?thesis using Inr lt by (simp add: parse_array_def)
  next
    case l: (Inr x)
    obtain s2 a2 where x: "x = (s2, a2)" by (cases x)
    show ?thesis
      using Inr l x read_one_character_fuel [of "clear s2" "CHR '']''"]
      by (cases "read_one_character (clear s2) (CHR '']'')") (simp_all add: parse_array_def)
  qed
qed

lemma parse_value_pending:
  "parse_value L k s val = Inr (s', v) \<Longrightarrow> length (pending s') \<le> length (pending s)"
proof (induction k arbitrary: s val s' v)
  case 0
  then show ?case by simp
next
  case (Suc k)
  have mono: "\<forall>s val s' v. parse_value L k s val = Inr (s', v) \<longrightarrow>
      length (pending s') \<le> length (pending s)"
    using Suc.IH by blast
  from Suc.prems show ?case
  proof (cases rule: parse_value_cases)
    case (object s1 obj)
    then show ?thesis
      using parse_object_pending [OF mono object(2)] peek_pending [OF object(1)] by simp
  next
    case (array s1 ar)
    then show ?thesis
      using parse_array_pending [OF mono array(2)] peek_pending [OF array(1)] by simp
  next
    case (string s1 str)
    then show ?thesis
      using parse_string_pending [OF string(2)] peek_pending [OF string(1)] by simp
  next
    case (true s1)
    then show ?thesis
      using parse_literal_pending [OF true(2) [unfolded parse_true_def]]
        peek_pending [OF true(1)] by simp
  next
    case (false s1)
    then show ?thesis
      using parse_literal_pending [OF false(2) [unfolded parse_false_def]]
        peek_pending [OF false(1)] by simp
  next
    case (null s1)
    then show ?thesis
      using parse_literal_pending [OF null(2) [unfolded parse_null_def]]
        peek_pending [OF null(1)] by simp
  next
    case (number s1 ch x)
    then show ?thesis
      using get_double_pending [OF number(3)] peek_pending [OF number(1)] by simp
  next
    case (failed s1 ch)
    then show ?thesis using peek_pending [OF failed(1)] by simp
  qed
qed

lemma parse_value_Inl:
  assumes "parse_value L (Suc k) s val = Inl e"
  shows "e = Undefined \<or> (\<exists>s1.
      parse_object (parse_value L k) (moves_rejected L) k (unget s1) [] = Inl e
        \<and> length (pending (unget s1)) \<le> length (pending s)
      \<or> parse_array (parse_value L k) k (unget s1) [] = Inl e
        \<and> length (pending (unget s1)) \<le> length (pending s)
      \<or> parse_string (unget s1) [] = Inl e
      \<or> parse_true (unget s1) = Inl e \<or> parse_false (unget s1) = Inl e
      \<or> parse_null (unget s1) = Inl e)"
proof -
  obtain s1 c where gc: "get_char s = (s1, c)" by (cases "get_char s")
  show ?thesis
  proof (cases c)
    case None
    then show ?thesis using assms gc by simp
  next
    case (Some ch)
    note l = peek_pending [OF gc [unfolded Some]]
    note p = assms [unfolded parse_value.simps gc Some Let_def, simplified]
    consider (o) "ch = CHR ''{''" | (a) "ch = CHR ''[''" | (s) "ch = CHR 0x22"
      | (t) "ch = CHR ''t''" | (f) "ch = CHR ''f''" | (n) "ch = CHR ''n''"
      | (x) "ch \<noteq> CHR ''{''" "ch \<noteq> CHR ''[''" "ch \<noteq> CHR 0x22" "ch \<noteq> CHR ''t''"
          "ch \<noteq> CHR ''f''" "ch \<noteq> CHR ''n''"
      by blast
    then show ?thesis
    proof cases
      case o
      with p l show ?thesis
        by (cases "parse_object (parse_value L k) (moves_rejected L) k (unget s1) []") auto
    next
      case a
      with p l show ?thesis
        by (cases "parse_array (parse_value L k) k (unget s1) []") auto
    next
      case s
      with p show ?thesis by (cases "parse_string (unget s1) []") auto
    next
      case t
      with p show ?thesis by (cases "parse_true (unget s1)") auto
    next
      case f
      with p show ?thesis by (cases "parse_false (unget s1)") auto
    next
      case n
      with p show ?thesis by (cases "parse_null (unget s1)") auto
    next
      case x
      with p show ?thesis
        by (cases "get_double L (unget s1) (num_zero L)") (auto split: if_splits)
    qed
  qed
qed

lemma parse_value_fuel:
  "length (pending s) < k \<Longrightarrow> terminates (parse_value L k s val)"
proof (induction k arbitrary: s val)
  case 0
  then show ?case by simp
next
  case (Suc k)
  have mono: "\<forall>s val s' v. parse_value L k s val = Inr (s', v) \<longrightarrow>
      length (pending s') \<le> length (pending s)"
    using parse_value_pending by blast
  have fu: "\<forall>s val. length (pending s) < k \<longrightarrow> terminates (parse_value L k s val)"
    using Suc.IH by blast
  show ?case
  proof (cases "parse_value L (Suc k) s val")
    case (Inr x)
    then show ?thesis by simp
  next
    case (Inl e)
    have "e = AssertionFailed \<or> e = Undefined"
    proof (rule ccontr)
      assume ne: "\<not> (e = AssertionFailed \<or> e = Undefined)"
      with parse_value_Inl [OF Inl] obtain s1 where
        "parse_object (parse_value L k) (moves_rejected L) k (unget s1) [] = Inl e
          \<and> length (pending (unget s1)) \<le> length (pending s)
        \<or> parse_array (parse_value L k) k (unget s1) [] = Inl e
          \<and> length (pending (unget s1)) \<le> length (pending s)
        \<or> parse_string (unget s1) [] = Inl e
        \<or> parse_true (unget s1) = Inl e \<or> parse_false (unget s1) = Inl e
        \<or> parse_null (unget s1) = Inl e"
        by auto
      moreover have "length (pending (unget s1)) \<le> length (pending s) \<Longrightarrow>
          terminates (parse_object (parse_value L k) (moves_rejected L) k (unget s1) [])"
        using parse_object_fuel [OF mono fu, of "unget s1"] Suc.prems by simp
      moreover have "length (pending (unget s1)) \<le> length (pending s) \<Longrightarrow>
          terminates (parse_array (parse_value L k) k (unget s1) [])"
        using parse_array_fuel [OF mono fu, of "unget s1"] Suc.prems by simp
      ultimately show False
        using ne parse_string_fuel [of "unget s1" "[]"]
          parse_literal_fuel [of "''true''" "unget s1"]
          parse_literal_fuel [of "''false''" "unget s1"]
          parse_literal_fuel [of "''null''" "unget s1"]
        by (auto simp: parse_true_def parse_false_def parse_null_def)
    qed
    then show ?thesis using Inl by simp
  qed
qed

text \<open>
  Claim C2 (totality), as amended. json.cpp has no error kinds and no positions.
  Every parse function ends on every input, in one of three ways: it returns to its
  caller, reporting a failure through the fail bit of the stream only; or an
  assertion fails and the process aborts; or the code evaluates a character that no
  extraction has assigned. (The bound of the model is never exhausted when it is
  above the length of the input, as in \<open>read_value\<close> and \<open>read_object\<close>.) On the
  input \<^verbatim>\<open>{"a": }\<close> the object parser does not abort: it returns, with the stream
  good and the text consumed.
\<close>

theorem parsers_terminate:
  "(length (pending s) < k \<longrightarrow> terminates (parse_value L k s val))
   \<and> terminates (read_value L txt)
   \<and> terminates (read_object L txt)
   \<and> terminates (parse_string s str)
   \<and> terminates (parse_true s) \<and> terminates (parse_false s) \<and> terminates (parse_null s)
   \<and> read_object (dec_lib mv) ''{\"a\": }'' =
       Inr (\<lparr>consumed = rev ''{\"a\": }'', pending = [], eofbit = False, failbit = False,
              badbit = False, skipws = True\<rparr>, [])"
proof -
  have mono: "\<forall>s val s' v. parse_value L (length txt) s val = Inr (s', v) \<longrightarrow>
      length (pending s') \<le> length (pending s)"
    using parse_value_pending by blast
  have fu: "\<forall>s val. length (pending s) < length txt \<longrightarrow>
      terminates (parse_value L (length txt) s val)"
    using parse_value_fuel by blast
  have ro: "terminates (read_object L txt)"
    unfolding read_object_def
    by (rule parse_object_fuel [OF mono fu]) (simp add: open_stream_def)
  have rv: "terminates (read_value L txt)"
    unfolding read_value_def by (rule parse_value_fuel) (simp add: open_stream_def)
  have "read_object (dec_lib True) ''{\"a\": }'' =
       Inr (\<lparr>consumed = rev ''{\"a\": }'', pending = [], eofbit = False, failbit = False,
              badbit = False, skipws = True\<rparr>, [])"
    by code_simp
  moreover have "read_object (dec_lib False) ''{\"a\": }'' =
       Inr (\<lparr>consumed = rev ''{\"a\": }'', pending = [], eofbit = False, failbit = False,
              badbit = False, skipws = True\<rparr>, [])"
    by code_simp
  ultimately have ex: "read_object (dec_lib mv) ''{\"a\": }'' =
       Inr (\<lparr>consumed = rev ''{\"a\": }'', pending = [], eofbit = False, failbit = False,
              badbit = False, skipws = True\<rparr>, [])"
    by (cases mv) simp_all
  show ?thesis
    using ro rv ex parse_value_fuel [of s k L val] parse_string_fuel [of s str]
      parse_literal_fuel [of _ s]
    by (simp add: parse_true_def parse_false_def parse_null_def)
qed

theorem parsers_terminate_witness:
  "length (pending (open_stream ''[1'')) < 3
   \<and> terminates (parse_value (dec_lib False) 3 (open_stream ''[1'') (Object []))
   \<and> parse_value (dec_lib False) 3 (open_stream ''[1'') (Object []) = Inl Undefined"
proof -
  have "parse_value (dec_lib False) 3 (open_stream ''[1'') (Object []) = Inl Undefined"
    by code_simp
  then show ?thesis
    using parsers_terminate [of "open_stream ''[1''" 3 "dec_lib False" "Object []"]
    by (simp add: open_stream_def)
qed

text \<open>
  Claim C2 as the specification words it fails: on \<^verbatim>\<open>{"a": }\<close> no error is
  reported, the parser returns the empty object with a good stream; and on
  \<^verbatim>\<open>{"a" 1}\<close> (no colon) the assertion of \<^verbatim>\<open>read_one_character\<close> fails and the
  process aborts.
\<close>

theorem parse_total_counterexample:
  "read_object (dec_lib False) ''{\"a\": }'' =
     Inr (\<lparr>consumed = rev ''{\"a\": }'', pending = [], eofbit = False, failbit = False,
            badbit = False, skipws = True\<rparr>, [])
   \<and> read_object (dec_lib False) ''{\"a\" 1}'' = Inl AssertionFailed"
  by code_simp

section \<open>Failures inside a collection\<close>

lemma read_one_character_good: "read_one_character s ch = Inr s' \<Longrightarrow> good s'"
  by (auto simp: read_one_character_def get_char_def sentry_def Let_def good_def advance_def
      split: if_splits list.splits option.splits prod.splits)

lemma array_loop_prefix:
  "array_loop pv k s val ar = Inr (s', ar') \<Longrightarrow> \<exists>xs. ar' = ar @ xs"
proof (induction k arbitrary: s val ar)
  case 0
  then show ?case by simp
next
  case (Suc k)
  from Suc.prems show ?case
  proof (cases rule: array_loop_cases)
    case (continue s1 val1 s2)
    then show ?thesis using Suc.IH [OF continue(4)] by auto
  qed simp_all
qed

lemma object_loop_superset:
  "object_loop pv moves k s m obj = Inr (s', obj') \<Longrightarrow> set obj \<subseteq> set obj'"
proof (induction k arbitrary: s m obj)
  case 0
  then show ?case by simp
next
  case (Suc k)
  from Suc.prems show ?case
  proof (cases rule: object_loop_cases)
    case (stop m1)
    then show ?thesis by simp
  next
    case (continue s1 m1 obj1 m2 s2)
    have "obj1 = fst (map_insert m1 obj)"
      using continue(3) by (auto simp: insert_move_def split: prod.splits)
    then show ?thesis
      using map_insert_keeps [of obj m1] Suc.IH [OF continue(5)] by auto
  next
    case (last s1 m1 m2 s2 ch)
    have "obj' = fst (map_insert m1 obj)"
      using last(3) by (auto simp: insert_move_def split: prod.splits)
    then show ?thesis using map_insert_keeps [of obj m1] by simp
  qed
qed

lemma fst_insert_move: "fst (insert_move moves x obj) = fst (map_insert x obj)"
  by (simp add: insert_move_def split: prod.splits)

lemma array_loop_failure:
  "elements_then_failure pv s val xs s' \<Longrightarrow> length xs < k \<Longrightarrow>
     array_loop pv k s val ar = Inr (s', ar @ xs) \<and> fail s'"
proof (induction xs arbitrary: s val ar k)
  case Nil
  then obtain j where k: "k = Suc j" by (cases k) auto
  from Nil.prems(1) show ?case
    by (auto simp: k split: sum.splits prod.splits)
next
  case (Cons x xs)
  then obtain j where k: "k = Suc j" by (cases k) auto
  from Cons.prems(1) obtain s1 s2 where
    p: "pv s val = Inr (s1, x)" "\<not> fail s1" "get_char s1 = (s2, Some (CHR '',''))"
    "elements_then_failure pv s2 (moved_from x) xs s'"
    by (auto split: sum.splits prod.splits option.splits)
  have "array_loop pv j s2 (moved_from x) (ar @ [x]) = Inr (s', (ar @ [x]) @ xs) \<and> fail s'"
    by (rule Cons.IH [OF p(4)]) (use Cons.prems(2) k in simp)
  then show ?case using p by (simp add: k)
qed

lemma object_loop_failure:
  "members_then_failure pv moves s m obj xs s' \<Longrightarrow> length xs < k \<Longrightarrow>
     object_loop pv moves k s m obj = Inr (s', insert_all xs obj) \<and> fail s'"
proof (induction xs arbitrary: s m obj k)
  case Nil
  then obtain j where k: "k = Suc j" by (cases k) auto
  from Nil.prems(1) show ?case
    by (auto simp: k insert_all_def split: sum.splits prod.splits)
next
  case (Cons x xs)
  then obtain j where k: "k = Suc j" by (cases k) auto
  from Cons.prems(1) obtain s1 s2 where
    p: "parse_member pv s m = Inr (s1, x)" "\<not> fail s1" "get_char s1 = (s2, Some (CHR '',''))"
    "members_then_failure pv moves s2 (snd (insert_move moves x obj))
       (fst (insert_move moves x obj)) xs s'"
    by (auto split: sum.splits prod.splits option.splits)
  obtain obj1 m2 where im: "insert_move moves x obj = (obj1, m2)"
    by (cases "insert_move moves x obj")
  have o: "obj1 = fst (map_insert x obj)"
    using fst_insert_move [of moves x obj] im by simp
  have "object_loop pv moves j s2 m2 obj1 = Inr (s', insert_all xs obj1) \<and> fail s'"
    by (rule Cons.IH) (use p(4) im Cons.prems(2) k in simp_all)
  then show ?case using p im
    by (simp add: k insert_all_def o)
qed

lemma read_closer:
  assumes "pending s = ws @ c # r" "\<forall>x\<in>set ws. isspace x" "\<not> isspace c" "skipws s \<or> ws = []"
  shows "read_one_character (clear s) ch =
    (if c = ch then Inr (advance (Suc (length ws)) (clear s)) else Inl AssertionFailed)"
proof -
  have "get_char (clear s) = (advance (Suc (length ws)) (clear s), Some c)"
    by (rule get_char_skip [where r = r]) (use assms in \<open>simp_all add: clear_def good_def\<close>)
  then show ?thesis by (simp add: read_one_character_def)
qed

text \<open>
  Claim C8 (nested failures), as amended. When the parse of an element fails after the
  elements \<open>xs\<close> have been read, each followed by a comma, the failure does not leave
  the array parser: the loop ends, \<^verbatim>\<open>is.clear()\<close> resets the state of the failed
  stream, and the next character is read as the closing bracket. If it is the bracket,
  the parser returns a good stream, just behind the bracket, and the array it was
  given extended by exactly \<open>xs\<close>: a partial array. If it is another character, the
  assertion of \<^verbatim>\<open>read_one_character\<close> fails. The same holds of an object parser and
  the members \<open>ms\<close> read before the failed member parse, which the object returned has
  had inserted in turn. No object or array parser ever returns a stream that is not
  good, and what it returns holds the members or elements that it was given.
\<close>

theorem collection_failure_cleared:
  "(read_one_character s (CHR ''['') = Inr sa \<and> elements_then_failure pv sa (Object []) xs sf
      \<and> length xs < k \<and> pending sf = ws @ c # r \<and> (\<forall>x\<in>set ws. isspace x) \<and> \<not> isspace c
      \<and> (skipws sf \<or> ws = []) \<longrightarrow>
      fail sf \<and> good (advance (Suc (length ws)) (clear sf))
      \<and> parse_array pv k s ar =
          (if c = CHR '']'' then Inr (advance (Suc (length ws)) (clear sf), ar @ xs)
           else Inl AssertionFailed))
   \<and> (read_one_character s (CHR ''{'') = Inr sa
      \<and> members_then_failure pv moves sa ([], Object []) obj ms sf
      \<and> length ms < k \<and> pending sf = ws @ c # r \<and> (\<forall>x\<in>set ws. isspace x) \<and> \<not> isspace c
      \<and> (skipws sf \<or> ws = []) \<longrightarrow>
      fail sf \<and> good (advance (Suc (length ws)) (clear sf))
      \<and> parse_object pv moves k s obj =
          (if c = CHR ''}'' then Inr (advance (Suc (length ws)) (clear sf), insert_all ms obj)
           else Inl AssertionFailed))
   \<and> (parse_array pv k s ar = Inr (s', ar') \<longrightarrow> good s' \<and> (\<exists>ys. ar' = ar @ ys))
   \<and> (parse_object pv moves k s obj = Inr (s', obj') \<longrightarrow> good s' \<and> set obj \<subseteq> set obj')"
proof (intro conjI impI; (elim conjE)?)
  assume r: "read_one_character s (CHR ''['') = Inr sa"
    and e: "elements_then_failure pv sa (Object []) xs sf" and l: "length xs < k"
    and p: "pending sf = ws @ c # r" "\<forall>x\<in>set ws. isspace x" "\<not> isspace c" "skipws sf \<or> ws = []"
  note lp = array_loop_failure [OF e l, of ar]
  show "fail sf" using lp by simp
  show "good (advance (Suc (length ws)) (clear sf))" by (simp add: clear_def good_def)
  show "parse_array pv k s ar =
          (if c = CHR '']'' then Inr (advance (Suc (length ws)) (clear sf), ar @ xs)
           else Inl AssertionFailed)"
    using lp by (simp add: parse_array_def r read_closer [OF p])
next
  assume r: "read_one_character s (CHR ''{'') = Inr sa"
    and e: "members_then_failure pv moves sa ([], Object []) obj ms sf" and l: "length ms < k"
    and p: "pending sf = ws @ c # r" "\<forall>x\<in>set ws. isspace x" "\<not> isspace c" "skipws sf \<or> ws = []"
  note lp = object_loop_failure [OF e l]
  show "fail sf" using lp by simp
  show "good (advance (Suc (length ws)) (clear sf))" by (simp add: clear_def good_def)
  show "parse_object pv moves k s obj =
          (if c = CHR ''}'' then Inr (advance (Suc (length ws)) (clear sf), insert_all ms obj)
           else Inl AssertionFailed)"
    using lp by (simp add: parse_object_def r read_closer [OF p])
next
  assume a: "parse_array pv k s ar = Inr (s', ar')"
  then show "good s'" "\<exists>ys. ar' = ar @ ys"
    by (cases rule: parse_array_cases; auto dest: read_one_character_good array_loop_prefix)+
next
  assume a: "parse_object pv moves k s obj = Inr (s', obj')"
  then show "good s'" "set obj \<subseteq> set obj'"
    by (cases rule: parse_object_cases; auto dest: read_one_character_good object_loop_superset)+
qed

theorem collection_failure_cleared_witness:
  "read_one_character (open_stream ''[1,]'') (CHR ''['') =
     Inr \<lparr>consumed = ''['', pending = ''1,]'', eofbit = False, failbit = False, badbit = False,
            skipws = True\<rparr>
   \<and> elements_then_failure (parse_value (dec_lib False) 4)
         \<lparr>consumed = ''['', pending = ''1,]'', eofbit = False, failbit = False, badbit = False,
            skipws = True\<rparr>
         (Object []) [Number 1]
         \<lparr>consumed = '',1['', pending = '']'', eofbit = False, failbit = True, badbit = False,
            skipws = True\<rparr>
   \<and> fail \<lparr>consumed = '',1['', pending = '']'', eofbit = False, failbit = True, badbit = False,
            skipws = True\<rparr>
   \<and> parse_array (parse_value (dec_lib False) 4) 4 (open_stream ''[1,]'') [] =
     Inr (\<lparr>consumed = rev ''[1,]'', pending = [], eofbit = False, failbit = False, badbit = False,
            skipws = True\<rparr>, [Number 1])
   \<and> good \<lparr>consumed = rev ''[1,]'', pending = [], eofbit = False, failbit = False, badbit = False,
            skipws = True\<rparr>
   \<and> read_one_character (open_stream ''{\"a\":1,\"b\": }'') (CHR ''{'') =
     Inr \<lparr>consumed = ''{'', pending = ''\"a\":1,\"b\": }'', eofbit = False, failbit = False, badbit = False,
            skipws = True\<rparr>
   \<and> members_then_failure (parse_value (dec_lib False) 13) False
         \<lparr>consumed = ''{'', pending = ''\"a\":1,\"b\": }'', eofbit = False, failbit = False, badbit = False,
            skipws = True\<rparr>
         ([], Object []) [] [(''a'', Number 1)]
         \<lparr>consumed = rev ''{\"a\":1,\"b\": '', pending = ''}'', eofbit = False, failbit = True, badbit = False,
            skipws = True\<rparr>
   \<and> fail \<lparr>consumed = rev ''{\"a\":1,\"b\": '', pending = ''}'', eofbit = False, failbit = True, badbit = False,
            skipws = True\<rparr>
   \<and> parse_object (parse_value (dec_lib False) 13) False 13 (open_stream ''{\"a\":1,\"b\": }'') [] =
     Inr (\<lparr>consumed = rev ''{\"a\":1,\"b\": }'', pending = [], eofbit = False, failbit = False, badbit = False,
            skipws = True\<rparr>, [(''a'', Number 1)])
   \<and> good \<lparr>consumed = rev ''{\"a\":1,\"b\": }'', pending = [], eofbit = False, failbit = False, badbit = False,
            skipws = True\<rparr>"
proof -
  have ar: "read_one_character (open_stream ''[1,]'') (CHR ''['') =
     Inr \<lparr>consumed = ''['', pending = ''1,]'', eofbit = False, failbit = False, badbit = False,
            skipws = True\<rparr>"
    by code_simp
  have ae: "elements_then_failure (parse_value (dec_lib False) 4)
         \<lparr>consumed = ''['', pending = ''1,]'', eofbit = False, failbit = False, badbit = False,
            skipws = True\<rparr>
         (Object []) [Number 1]
         \<lparr>consumed = '',1['', pending = '']'', eofbit = False, failbit = True, badbit = False,
            skipws = True\<rparr>"
    by code_simp
  have orr: "read_one_character (open_stream ''{\"a\":1,\"b\": }'') (CHR ''{'') =
     Inr \<lparr>consumed = ''{'', pending = ''\"a\":1,\"b\": }'', eofbit = False, failbit = False, badbit = False,
            skipws = True\<rparr>"
    by code_simp
  have oe: "members_then_failure (parse_value (dec_lib False) 13) False
         \<lparr>consumed = ''{'', pending = ''\"a\":1,\"b\": }'', eofbit = False, failbit = False, badbit = False,
            skipws = True\<rparr>
         ([], Object []) [] [(''a'', Number 1)]
         \<lparr>consumed = rev ''{\"a\":1,\"b\": '', pending = ''}'', eofbit = False, failbit = True, badbit = False,
            skipws = True\<rparr>"
    by code_simp
  note a1 = collection_failure_cleared
    [where s = "open_stream ''[1,]''" and pv = "parse_value (dec_lib False) 4" and k = 4
      and sa = "\<lparr>consumed = ''['', pending = ''1,]'', eofbit = False, failbit = False, badbit = False,
            skipws = True\<rparr>"
      and xs = "[Number 1]"
      and sf = "\<lparr>consumed = '',1['', pending = '']'', eofbit = False, failbit = True, badbit = False,
            skipws = True\<rparr>"
      and ws = "[]" and c = "CHR '']''" and r = "[]" and ar = "[]"
      and s' = "\<lparr>consumed = rev ''[1,]'', pending = [], eofbit = False, failbit = False, badbit = False,
            skipws = True\<rparr>"
      and ar' = "[Number 1]"]
  note o1 = collection_failure_cleared
    [where s = "open_stream ''{\"a\":1,\"b\": }''" and pv = "parse_value (dec_lib False) 13" and k = 13
      and moves = False
      and sa = "\<lparr>consumed = ''{'', pending = ''\"a\":1,\"b\": }'', eofbit = False, failbit = False, badbit = False,
            skipws = True\<rparr>"
      and ms = "[(''a'', Number 1)]"
      and sf = "\<lparr>consumed = rev ''{\"a\":1,\"b\": '', pending = ''}'', eofbit = False, failbit = True, badbit = False,
            skipws = True\<rparr>"
      and ws = "[]" and c = "CHR ''}''" and r = "[]" and obj = "[]"
      and s' = "\<lparr>consumed = rev ''{\"a\":1,\"b\": }'', pending = [], eofbit = False, failbit = False, badbit = False,
            skipws = True\<rparr>"
      and obj' = "[(''a'', Number 1)]"]
  have a: "fail \<lparr>consumed = '',1['', pending = '']'', eofbit = False, failbit = True, badbit = False,
            skipws = True\<rparr>"
    "parse_array (parse_value (dec_lib False) 4) 4 (open_stream ''[1,]'') [] =
     Inr (\<lparr>consumed = rev ''[1,]'', pending = [], eofbit = False, failbit = False, badbit = False,
            skipws = True\<rparr>, [Number 1])"
    using a1 ar ae by (simp_all add: isspace_def advance_def clear_def)
  have ag: "good \<lparr>consumed = rev ''[1,]'', pending = [], eofbit = False, failbit = False, badbit = False,
            skipws = True\<rparr>"
    using a1 a(2) by simp
  have o: "fail \<lparr>consumed = rev ''{\"a\":1,\"b\": '', pending = ''}'', eofbit = False, failbit = True, badbit = False,
            skipws = True\<rparr>"
    "parse_object (parse_value (dec_lib False) 13) False 13 (open_stream ''{\"a\":1,\"b\": }'') [] =
     Inr (\<lparr>consumed = rev ''{\"a\":1,\"b\": }'', pending = [], eofbit = False, failbit = False, badbit = False,
            skipws = True\<rparr>, [(''a'', Number 1)])"
    using o1 orr oe by (simp_all add: isspace_def advance_def clear_def insert_all_def)
  have og: "good \<lparr>consumed = rev ''{\"a\":1,\"b\": }'', pending = [], eofbit = False, failbit = False, badbit = False,
            skipws = True\<rparr>"
    using o1 o(2) by simp
  show ?thesis
    using ar ae a ag orr oe o og by simp
qed

text \<open>
  Claim C8 as the specification words it fails on \<^verbatim>\<open>[1,]\<close>: the parse of the element
  after the comma fails (it returns with the fail bit set, at the bracket), and the
  array parser returns the partial array of the one element \<open>1\<close> with a good stream.
\<close>

theorem nested_failure_counterexample:
  "parse_value (dec_lib False) 4
     \<lparr>consumed = '',1['', pending = '']'', eofbit = False, failbit = False, badbit = False,
        skipws = True\<rparr> (Number 1) =
     Inr (\<lparr>consumed = '',1['', pending = '']'', eofbit = False, failbit = True,
            badbit = False, skipws = True\<rparr>, Number 1)
   \<and> read_value (dec_lib False) ''[1,]'' =
     Inr (\<lparr>consumed = rev ''[1,]'', pending = [], eofbit = False, failbit = False,
            badbit = False, skipws = True\<rparr>, Array [Number 1])"
  by code_simp

section \<open>Literals next to a closing bracket\<close>

text \<open>
  Claim C7 (trailing character of a literal): the code gives back a trailing comma
  only. On \<^verbatim>\<open>[true]\<close> the word read is \<^verbatim>\<open>true]\<close>, the bracket is not given back,
  and the assertion \<^verbatim>\<open>s == "true"\<close> fails, where the claim has the bracket pushed
  back and \<^verbatim>\<open>true\<close> accepted. A trailing comma is given back as the claim says,
  and a number next to the bracket, as in \<^verbatim>\<open>[1]\<close>, is read.
\<close>

theorem literal_before_closer:
  "read_value (dec_lib False) ''[true]'' = Inl AssertionFailed
   \<and> parse_true (open_stream ''true]'') = Inl AssertionFailed
   \<and> parse_true (open_stream ''true, '') =
       Inr \<lparr>consumed = ''eurt'', pending = '', '', eofbit = False, failbit = False,
            badbit = False, skipws = True\<rparr>
   \<and> read_value (dec_lib False) ''[1]'' =
       Inr (\<lparr>consumed = '']1['', pending = [], eofbit = False, failbit = False,
              badbit = False, skipws = True\<rparr>, Array [Number 1])"
  by code_simp

end
